theory Spec2Isabelle
  imports Main "HOL-Library.Word"
begin

unbundle bit_operations_syntax

section \<open>Values of the reader\<close>

text \<open>
  The reader of \<^verbatim>\<open>src/exfat.ts\<close> works on a \<^verbatim>\<open>Uint8Array\<close>, on JavaScript
  numbers and on JavaScript strings.
  \<^item> A \<^verbatim>\<open>Uint8Array\<close> is the list of its bytes. A view made by \<^verbatim>\<open>subarray\<close> is the
    list of the bytes it shows.
  \<^item> Every number of the reader is an integer: bytes, 32-bit fields, their products
    with powers of two, and sums of those. They are modelled as \<open>int\<close>. The one
    operator that works on 32 bits, \<^verbatim>\<open><<\<close>, is modelled on \<open>32 word\<close> and read back
    signed, as JavaScript does (\<^verbatim>\<open>1 << 31\<close> is negative). JavaScript numbers are
    doubles, exact on the integers below \<open>2 ^ 53\<close> in magnitude. The 64-bit size of
    an entry is rounded as the code rounds it (\<open>toDouble\<close> below). The sums of
    offsets that can go beyond \<open>2 ^ 53\<close> (an offset scaled by a sector size of
    \<open>2 ^ 31\<close>) are taken exact: no array has that many bytes, and \<^verbatim>\<open>subarray\<close> clamps
    such an offset to the same end of the array whether it is rounded or not.
  \<^item> A string is the list of its UTF-16 code units.
  \<^item> An exception is the error of a sum; the only exception the code can raise is the
    \<^verbatim>\<open>RangeError\<close> of \<^verbatim>\<open>DataView.getUint32\<close> on an offset outside the view.
  \<^item> A computation that may run forever has an \<open>option\<close> around its outcome, with
    \<open>None\<close> for not returning. Memory and the call stack are taken to be unbounded:
    an allocation succeeds, and a loop or a recursion without end does not return.
\<close>

type_synonym bytes = "8 word list"
type_synonym jsstring = "16 word list"

datatype error = RangeError

record Boot =
  sectorSize :: int
  clusterSize :: int
  fatOffsetBytes :: int
  fatLengthBytes :: int
  clusterHeapOffsetBytes :: int
  clusterCount :: int
  rootDirCluster :: int

record DirEntry =
  name :: jsstring
  isDir :: bool
  size_e :: int
  firstCluster :: int

record ExfatListItem =
  li_name :: jsstring
  li_isDir :: bool
  li_size :: int

text \<open>
  The \<^verbatim>\<open>read\<close> field of a walk item is a closure over the entry's first cluster and
  size; the record keeps the two captured numbers, and \<open>invokeRead\<close> below runs the body.
\<close>

record ExfatWalkItem =
  path :: jsstring
  wi_isDir :: bool
  wi_size :: int
  read :: "(int \<times> int) option"

record ExfatReader =
  buf :: bytes
  boot :: Boot

section \<open>Reading numbers\<close>

text \<open>The little-endian 32-bit value of the four bytes at index \<open>n\<close>.\<close>

definition le32 :: "bytes \<Rightarrow> nat \<Rightarrow> int" where
  "le32 d n = uint (d ! n) + 256 * uint (d ! (n + 1)) + 65536 * uint (d ! (n + 2))
     + 16777216 * uint (d ! (n + 3))"

text \<open>\<^verbatim>\<open>DataView.getUint32(o, true)\<close>: a \<^verbatim>\<open>RangeError\<close> outside the view.\<close>

definition getUint32 :: "bytes \<Rightarrow> int \<Rightarrow> error + int" where
  "getUint32 d off = (if off < 0 \<or> int (length d) < off + 4 then Inl RangeError
     else Inr (le32 d (nat off)))"

definition readU32 :: "bytes \<Rightarrow> int \<Rightarrow> error + int" where
  "readU32 d off = getUint32 d off"

definition bindE :: "error + 'a \<Rightarrow> ('a \<Rightarrow> error + 'b) \<Rightarrow> error + 'b" where
  "bindE m f = (case m of Inl e \<Rightarrow> Inl e | Inr x \<Rightarrow> f x)"

text \<open>
  \<^verbatim>\<open>hi * 2 ** 32 + lo\<close> is an addition of doubles. The product is exact (32 bits times
  a power of two); the sum can have up to 64 bits and is rounded to the nearest double,
  ties to the even mantissa. \<open>ulp53 x\<close> is the distance between the doubles around
  an integer \<open>x\<close> that needs more than 53 bits (1 below \<open>2 ^ 53\<close>), and
  \<open>toDouble x\<close> is the double nearest to a non-negative integer \<open>x\<close>.
\<close>

function ulp53 :: "int \<Rightarrow> int" where
  "ulp53 x = (if x < 2 ^ 53 then 1 else 2 * ulp53 (x div 2))"
  by pat_completeness auto
termination
  by (relation "measure nat") auto

declare ulp53.simps [simp del]

definition toDouble :: "int \<Rightarrow> int" where
  "toDouble x =
     (let u = ulp53 x; q = x div u; r = x mod u
      in if 2 * r > u \<or> (2 * r = u \<and> odd q) then (q + 1) * u else q * u)"

definition readU64 :: "bytes \<Rightarrow> int \<Rightarrow> error + int" where
  "readU64 d off =
     bindE (getUint32 d off) (\<lambda>lo.
     bindE (getUint32 d (off + 4)) (\<lambda>hi.
     Inr (toDouble (hi * 2 ^ 32 + lo))))"

text \<open>
  \<^verbatim>\<open>1 << buf[i]\<close>: an index outside the array reads \<^verbatim>\<open>undefined\<close>, which shifts by 0;
  the shift count is taken modulo 32 and the result is a signed 32-bit number.
\<close>

definition shl1 :: "bytes \<Rightarrow> nat \<Rightarrow> int" where
  "shl1 b i = (let n = (if i < length b then unat (b ! i) else 0)
     in sint (push_bit (n mod 32) (1 :: 32 word)))"

section \<open>Boot sector\<close>

definition parseBoot :: "bytes \<Rightarrow> error + Boot" where
  "parseBoot b =
     (let sectorSize = shl1 b 0x6c;
          clusterSize = sectorSize * shl1 b 0x6d
      in bindE (readU32 b 0x50) (\<lambda>fatOffset.
         bindE (readU32 b 0x54) (\<lambda>fatLength.
         bindE (readU32 b 0x58) (\<lambda>clusterHeapOffset.
         bindE (readU32 b 0x5c) (\<lambda>clusterCount.
         bindE (readU32 b 0x60) (\<lambda>rootDirCluster.
         Inr \<lparr> sectorSize = sectorSize,
               clusterSize = clusterSize,
               fatOffsetBytes = fatOffset * sectorSize,
               fatLengthBytes = fatLength * sectorSize,
               clusterHeapOffsetBytes = clusterHeapOffset * sectorSize,
               clusterCount = clusterCount,
               rootDirCluster = rootDirCluster \<rparr>))))))"

text \<open>The constructor \<^verbatim>\<open>new ExfatReader(image)\<close>.\<close>

definition newExfatReader :: "bytes \<Rightarrow> error + ExfatReader" where
  "newExfatReader img =
     bindE (parseBoot img) (\<lambda>bt. Inr \<lparr> buf = img, boot = bt \<rparr>)"

section \<open>Cluster heap and FAT chains\<close>

text \<open>
  \<^verbatim>\<open>Uint8Array.subarray(begin, end)\<close> never throws: a negative index counts from the
  end, and both indices are clamped to the array.
\<close>

definition subarray :: "bytes \<Rightarrow> int \<Rightarrow> int \<Rightarrow> bytes" where
  "subarray b begin fin =
     (let len = int (length b);
          beginIndex = (if begin < 0 then max (len + begin) 0 else min begin len);
          endIndex = (if fin < 0 then max (len + fin) 0 else min fin len)
      in take (nat (endIndex - beginIndex)) (drop (nat beginIndex) b))"

definition clusterOffset :: "Boot \<Rightarrow> int \<Rightarrow> int" where
  "clusterOffset bt cluster = clusterHeapOffsetBytes bt + (cluster - 2) * clusterSize bt"

definition readFATNext :: "bytes \<Rightarrow> Boot \<Rightarrow> int \<Rightarrow> error + int" where
  "readFATNext b bt cluster =
     (let off = fatOffsetBytes bt + cluster * 4
      in if off + 4 > int (length b) then Inr 0xffffffff else getUint32 b off)"

definition isEndOfChain :: "int \<Rightarrow> bool" where
  "isEndOfChain v \<longleftrightarrow> v \<ge> 0xfffffff8 \<or> v = 0xffffffff \<or> v = 0"

text \<open>
  The \<^verbatim>\<open>while\<close> loop of \<^verbatim>\<open>readChain\<close>, on its variables \<^verbatim>\<open>c\<close>, \<^verbatim>\<open>remaining\<close>
  (\<open>None\<close> for \<^verbatim>\<open>undefined\<close>) and \<^verbatim>\<open>chunks\<close>. The FAT may hold a cycle, so the loop
  is a partial function: \<open>None\<close> when it runs forever, \<open>Some (Inl e)\<close> when
  \<^verbatim>\<open>readFATNext\<close> throws, \<open>Some (Inr chunks)\<close> when it ends.
\<close>

partial_function (option) chainLoop ::
  "bytes \<Rightarrow> Boot \<Rightarrow> int \<Rightarrow> int option \<Rightarrow> bytes list \<Rightarrow> (error + bytes list) option" where
  "chainLoop b bt c remaining chunks =
     (if c \<ge> 2 \<and> c < 0x0fffffff then
        (let off = clusterOffset bt c;
             sz = clusterSize bt;
             slice = subarray b off (off + sz);
             pushed =
               (case remaining of
                  None \<Rightarrow> Some (chunks @ [slice], None)
                | Some rem \<Rightarrow>
                    if rem \<le> 0 then None
                    else Some (chunks @ [subarray slice 0 (min (int (length slice)) rem)],
                               Some (rem - min (int (length slice)) rem)))
         in case pushed of
              None \<Rightarrow> Some (Inr chunks)
            | Some (chunks', remaining') \<Rightarrow>
                (case readFATNext b bt c of
                   Inl e \<Rightarrow> Some (Inl e)
                 | Inr nxt \<Rightarrow>
                     if isEndOfChain nxt then Some (Inr chunks')
                     else chainLoop b bt nxt remaining' chunks'))
      else Some (Inr chunks))"

text \<open>
  \<^verbatim>\<open>readChain\<close>: a single chunk is returned as it is (a view of the image), any other
  number of chunks is copied into a new array.
\<close>

definition readChain ::
  "bytes \<Rightarrow> Boot \<Rightarrow> int \<Rightarrow> int option \<Rightarrow> (error + bytes) option" where
  "readChain b bt startCluster limitBytes =
     (case chainLoop b bt startCluster limitBytes [] of
        None \<Rightarrow> None
      | Some (Inl e) \<Rightarrow> Some (Inl e)
      | Some (Inr chunks) \<Rightarrow>
          Some (Inr (if length chunks = 1 then hd chunks else concat chunks)))"

declare chainLoop.simps [code]

text \<open>Sequencing of computations that may throw or not return.\<close>

definition bindR ::
  "(error + 'a) option \<Rightarrow> ('a \<Rightarrow> (error + 'b) option) \<Rightarrow> (error + 'b) option" where
  "bindR m f = (case m of None \<Rightarrow> None | Some (Inl e) \<Rightarrow> Some (Inl e) | Some (Inr x) \<Rightarrow> f x)"

section \<open>Directory entries\<close>

text \<open>
  \<^verbatim>\<open>TextDecoder("utf-16le").decode\<close>, as the Encoding standard defines it, on the code
  units of the result: two bytes make a code unit, a surrogate without its partner
  (and a byte left over at the end) becomes U+FFFD, and a byte order mark in front is
  dropped.
\<close>

fun codeUnits :: "bytes \<Rightarrow> jsstring" where
  "codeUnits (lo # hi # rest) = (ucast lo OR push_bit 8 (ucast hi)) # codeUnits rest"
| "codeUnits _ = []"

definition isLead :: "16 word \<Rightarrow> bool" where
  "isLead u \<longleftrightarrow> 0xD800 \<le> u \<and> u \<le> 0xDBFF"

definition isTrail :: "16 word \<Rightarrow> bool" where
  "isTrail u \<longleftrightarrow> 0xDC00 \<le> u \<and> u \<le> 0xDFFF"

fun utf16 :: "jsstring \<Rightarrow> bool \<Rightarrow> jsstring" where
  "utf16 [] leftover = (if leftover then [0xFFFD] else [])"
| "utf16 (u # us) leftover =
     (if isLead u then
        (case us of
           [] \<Rightarrow> [0xFFFD]
         | v # vs \<Rightarrow>
             if isTrail v then u # v # utf16 vs leftover else 0xFFFD # utf16 us leftover)
      else if isTrail u then 0xFFFD # utf16 us leftover
      else u # utf16 us leftover)"

definition TD16_decode :: "bytes \<Rightarrow> jsstring" where
  "TD16_decode part =
     (case utf16 (codeUnits part) (odd (length part)) of
        [] \<Rightarrow> []
      | u # us \<Rightarrow> if u = 0xFEFF then us else u # us)"

text \<open>\<^verbatim>\<open>name.replace(/\u0000+$/g, "")\<close>: the NUL code units at the end are removed.\<close>

definition stripNul :: "jsstring \<Rightarrow> jsstring" where
  "stripNul s = rev (dropWhile (\<lambda>u. u = 0) (rev s))"

text \<open>
  The inner loop of \<^verbatim>\<open>readDirectory\<close> over the secondary entries, on its variables
  \<^verbatim>\<open>consumed\<close>, \<^verbatim>\<open>j\<close>, \<^verbatim>\<open>name\<close>, \<^verbatim>\<open>firstCluster\<close> and \<^verbatim>\<open>size\<close>; it returns
  the last four.
\<close>

function secondaries ::
  "bytes \<Rightarrow> nat \<Rightarrow> nat \<Rightarrow> nat \<Rightarrow> jsstring \<Rightarrow> int \<Rightarrow> int \<Rightarrow> error + (jsstring \<times> int \<times> int \<times> nat)" where
  "secondaries data secondaryCount consumed j nm fc sz =
     (if consumed \<le> secondaryCount \<and> j + 32 \<le> length data then
        (if data ! j = 0xc0 then
           (case readU32 data (int j + 0x14) of
              Inl e \<Rightarrow> Inl e
            | Inr fc' \<Rightarrow>
                (case readU64 data (int j + 0x18) of
                   Inl e \<Rightarrow> Inl e
                 | Inr sz' \<Rightarrow> secondaries data secondaryCount (consumed + 1) (j + 32) nm fc' sz'))
         else if data ! j = 0xc1 then
           secondaries data secondaryCount (consumed + 1) (j + 32)
             (nm @ TD16_decode (subarray data (int j + 2) (int j + 32))) fc sz
         else secondaries data secondaryCount (consumed + 1) (j + 32) nm fc sz)
      else Inr (nm, fc, sz, j))"
  by pat_completeness auto
termination
  by (relation "measure (\<lambda>(data, secondaryCount, consumed, j, nm, fc, sz). length data - j)") auto

declare secondaries.simps [simp del]

lemma secondaries_advances:
  "secondaries data secondaryCount consumed j nm fc sz = Inr (nm', fc', sz', j') \<Longrightarrow> j \<le> j'"
proof (induction data secondaryCount consumed j nm fc sz rule: secondaries.induct)
  case (1 data secondaryCount consumed j nm fc sz)
  show ?case
  proof (cases "consumed \<le> secondaryCount \<and> j + 32 \<le> length data")
    case True
    with "1.prems" "1.IH" show ?thesis
      by (subst (asm) secondaries.simps)
        (fastforce split: if_splits sum.splits)
  next
    case False
    with "1.prems" show ?thesis
      by (subst (asm) secondaries.simps) simp
  qed
qed

text \<open>The outer loop of \<^verbatim>\<open>readDirectory\<close>, on \<^verbatim>\<open>i\<close> and \<^verbatim>\<open>res\<close>.\<close>

function scanEntries :: "bytes \<Rightarrow> nat \<Rightarrow> DirEntry list \<Rightarrow> error + DirEntry list" where
  "scanEntries data i res =
     (if i + 32 \<le> length data then
        (if data ! i = 0x00 then scanEntries data (i + 32) res
         else if data ! i = 0x85 then
           (case secondaries data (unat (data ! (i + 1))) 1 (i + 32) [] 0 0 of
              Inl e \<Rightarrow> Inl e
            | Inr (nm, fc, sz, j) \<Rightarrow>
                scanEntries data j
                  (res @ [\<lparr> name = stripNul nm, isDir = (data ! (i + 4) AND 0x10 \<noteq> 0),
                            size_e = sz, firstCluster = fc \<rparr>]))
         else scanEntries data (i + 32) res)
      else Inr res)"
  by pat_completeness auto
termination
  by (relation "measure (\<lambda>(data, i, res). length data - i)")
    (auto dest!: secondaries_advances)

declare scanEntries.simps [simp del]

definition readDirectory :: "bytes \<Rightarrow> Boot \<Rightarrow> int \<Rightarrow> (error + DirEntry list) option" where
  "readDirectory b bt startCluster =
     bindR (readChain b bt startCluster None) (\<lambda>data. Some (scanEntries data 0 []))"

section \<open>Paths and the public operations\<close>

text \<open>\<^verbatim>\<open>p.split("/")\<close>: the segments between the slashes, empty ones included.\<close>

definition slash :: "16 word" where
  "slash = 0x2F"

primrec splitSlash :: "jsstring \<Rightarrow> jsstring list" where
  "splitSlash [] = [[]]"
| "splitSlash (u # us) =
     (if u = slash then [] # splitSlash us
      else (case splitSlash us of [] \<Rightarrow> [[u]] | seg # segs \<Rightarrow> (u # seg) # segs))"

text \<open>\<^verbatim>\<open>filter(Boolean)\<close> keeps the strings that are not empty.\<close>

definition normalizePath :: "jsstring \<Rightarrow> jsstring list" where
  "normalizePath p = filter (\<lambda>seg. seg \<noteq> []) (splitSlash p)"

definition toListItem :: "DirEntry \<Rightarrow> ExfatListItem" where
  "toListItem e = \<lparr> li_name = name e, li_isDir = isDir e, li_size = size_e e \<rparr>"

text \<open>
  The loops over the path segments take the segments still to visit and the current
  cluster; \<^verbatim>\<open>idx === parts.length - 1\<close> holds when no segment is left after this one.
\<close>

primrec list_from :: "ExfatReader \<Rightarrow> jsstring list \<Rightarrow> int \<Rightarrow> (error + ExfatListItem list) option" where
  "list_from r [] cluster =
     bindR (readDirectory (buf r) (boot r) cluster) (\<lambda>out. Some (Inr (map toListItem out)))"
| "list_from r (part # parts) cluster =
     bindR (readDirectory (buf r) (boot r) cluster) (\<lambda>entries.
       case find (\<lambda>e. isDir e \<and> name e = part) entries of
         None \<Rightarrow> Some (Inr [])
       | Some nxt \<Rightarrow> list_from r parts (firstCluster nxt))"

definition list :: "ExfatReader \<Rightarrow> jsstring \<Rightarrow> (error + ExfatListItem list) option" where
  "list r p = list_from r (normalizePath p) (rootDirCluster (boot r))"

primrec exists_from :: "ExfatReader \<Rightarrow> jsstring list \<Rightarrow> int \<Rightarrow> (error + bool) option" where
  "exists_from r [] cluster = Some (Inr True)"
| "exists_from r (part # parts) cluster =
     bindR (readDirectory (buf r) (boot r) cluster) (\<lambda>entries.
       case find (\<lambda>e. name e = part \<and> (parts = [] \<or> isDir e)) entries of
         None \<Rightarrow> Some (Inr False)
       | Some found \<Rightarrow> exists_from r parts (firstCluster found))"

definition exists :: "ExfatReader \<Rightarrow> jsstring \<Rightarrow> (error + bool) option" where
  "exists r p = exists_from r (normalizePath p) (rootDirCluster (boot r))"

text \<open>\<^verbatim>\<open>readFile\<close> returns \<open>None\<close> for \<^verbatim>\<open>null\<close>.\<close>

primrec readFile_from :: "ExfatReader \<Rightarrow> jsstring list \<Rightarrow> int \<Rightarrow> (error + bytes option) option" where
  "readFile_from r [] cluster = Some (Inr None)"
| "readFile_from r (part # parts) cluster =
     bindR (readDirectory (buf r) (boot r) cluster) (\<lambda>entries.
       case find (\<lambda>e. name e = part \<and> (if parts \<noteq> [] then isDir e else \<not> isDir e)) entries of
         None \<Rightarrow> Some (Inr None)
       | Some found \<Rightarrow>
           if parts = [] then
             bindR (readChain (buf r) (boot r) (firstCluster found) (Some (size_e found)))
               (\<lambda>content. Some (Inr (Some content)))
           else readFile_from r parts (firstCluster found))"

definition readFile :: "ExfatReader \<Rightarrow> jsstring \<Rightarrow> (error + bytes option) option" where
  "readFile r p = readFile_from r (normalizePath p) (rootDirCluster (boot r))"

text \<open>
  \<^verbatim>\<open>walk\<close>: the loop that resolves the segments gives the cluster to start from, or
  \<open>None\<close> where the code returns the empty list.
\<close>

primrec walk_from :: "ExfatReader \<Rightarrow> jsstring list \<Rightarrow> int \<Rightarrow> (error + int option) option" where
  "walk_from r [] cluster = Some (Inr (Some cluster))"
| "walk_from r (part # parts) cluster =
     bindR (readDirectory (buf r) (boot r) cluster) (\<lambda>entries.
       case find (\<lambda>e. isDir e \<and> name e = part) entries of
         None \<Rightarrow> Some (Inr None)
       | Some nxt \<Rightarrow> walk_from r parts (firstCluster nxt))"

text \<open>\<^verbatim>\<open>parts.join("/")\<close>.\<close>

fun join :: "jsstring list \<Rightarrow> jsstring" where
  "join [] = []"
| "join [x] = x"
| "join (x # y # ys) = x @ [slash] @ join (y # ys)"

definition childPath :: "jsstring \<Rightarrow> DirEntry \<Rightarrow> jsstring" where
  "childPath currentPath e =
     (if currentPath = [slash] then [slash] @ name e else currentPath @ [slash] @ name e)"

definition dirItem :: "jsstring \<Rightarrow> DirEntry \<Rightarrow> ExfatWalkItem" where
  "dirItem currentPath e =
     \<lparr> path = childPath currentPath e, wi_isDir = True, wi_size = size_e e, read = None \<rparr>"

definition fileItem :: "jsstring \<Rightarrow> DirEntry \<Rightarrow> ExfatWalkItem" where
  "fileItem currentPath e =
     \<lparr> path = childPath currentPath e, wi_isDir = False, wi_size = size_e e,
       read = Some (firstCluster e, size_e e) \<rparr>"

text \<open>
  The \<^verbatim>\<open>for\<close> loop of \<^verbatim>\<open>visit\<close> over the entries still to visit, with the recursive
  call of \<^verbatim>\<open>visit\<close> for a directory written out as reading the directory and running
  the loop on its entries. \<^verbatim>\<open>result\<close> is the array the items are pushed to. A directory
  that contains itself makes the recursion endless: \<open>None\<close>.
\<close>

partial_function (option) visitEntries ::
  "ExfatReader \<Rightarrow> jsstring \<Rightarrow> DirEntry list \<Rightarrow> ExfatWalkItem list \<Rightarrow> (error + ExfatWalkItem list) option" where
  "visitEntries r currentPath entries result =
     (case entries of
        [] \<Rightarrow> Some (Inr result)
      | e # es \<Rightarrow>
          if isDir e then
            (case readDirectory (buf r) (boot r) (firstCluster e) of
               None \<Rightarrow> None
             | Some (Inl err) \<Rightarrow> Some (Inl err)
             | Some (Inr sub) \<Rightarrow>
                 Option.bind (visitEntries r (childPath currentPath e) sub (result @ [dirItem currentPath e]))
                   (\<lambda>visited. case visited of
                        Inl err \<Rightarrow> Some (Inl err)
                      | Inr result' \<Rightarrow> visitEntries r currentPath es result'))
          else visitEntries r currentPath es (result @ [fileItem currentPath e]))"

declare visitEntries.simps [code]

definition visit ::
  "ExfatReader \<Rightarrow> jsstring \<Rightarrow> int \<Rightarrow> ExfatWalkItem list \<Rightarrow> (error + ExfatWalkItem list) option" where
  "visit r currentPath c result =
     bindR (readDirectory (buf r) (boot r) c) (\<lambda>entries. visitEntries r currentPath entries result)"

definition walk :: "ExfatReader \<Rightarrow> jsstring \<Rightarrow> (error + ExfatWalkItem list) option" where
  "walk r p =
     (let parts = normalizePath p
      in bindR (walk_from r parts (rootDirCluster (boot r))) (\<lambda>resolved.
           case resolved of
             None \<Rightarrow> Some (Inr [])
           | Some cluster \<Rightarrow>
               visit r (if parts \<noteq> [] then [slash] @ join parts else [slash]) cluster []))"

text \<open>Calling the \<^verbatim>\<open>read\<close> closure of a walk item.\<close>

definition invokeRead :: "ExfatReader \<Rightarrow> int \<times> int \<Rightarrow> (error + bytes) option" where
  "invokeRead r captured = readChain (buf r) (boot r) (fst captured) (Some (snd captured))"

section \<open>Resolved paths\<close>

text \<open>
  A path resolves to a file, in the words of the specification: every segment but the
  last names a directory entry of the directory reached so far, and the last segment
  names an entry that is not a directory. The entry a segment names is the first one
  of the directory with that name and kind.
\<close>

primrec resolvesTo :: "ExfatReader \<Rightarrow> int \<Rightarrow> jsstring list \<Rightarrow> DirEntry \<Rightarrow> bool" where
  "resolvesTo r cluster [] e = False"
| "resolvesTo r cluster (part # parts) e =
     (case readDirectory (buf r) (boot r) cluster of
        Some (Inr entries) \<Rightarrow>
          (if parts = [] then find (\<lambda>x. name x = part \<and> \<not> isDir x) entries = Some e
           else (case find (\<lambda>x. name x = part \<and> isDir x) entries of
                   Some d \<Rightarrow> resolvesTo r (firstCluster d) parts e
                 | None \<Rightarrow> False))
      | _ \<Rightarrow> False)"

section \<open>Sample images\<close>



text \<open>
  An image with sectors and clusters of 32 bytes: the boot region (bytes 0 to 127), the
  FAT (bytes 128 to 191), and the cluster heap from byte 192.
  \<^item> Clusters 2 to 7 are the root directory: the directory \<^verbatim>\<open>d\<close> (first cluster 8) and
    the file \<^verbatim>\<open>a\<close> (first cluster 14, 20 bytes).
  \<^item> Clusters 8 to 13 are the directory \<^verbatim>\<open>d\<close>: the file \<^verbatim>\<open>e\<close> (first cluster 0, 0 bytes)
    and the file \<^verbatim>\<open>b\<close> (first cluster 14, declared 100 bytes long).
  \<^item> Cluster 14 holds the bytes 1 to 32 and ends its chain.
\<close>

definition sampleBootRegion :: bytes where
  "sampleBootRegion =
     [0, 0, 0, 0, 0, 0, 0, 0, 0, 0, 0, 0, 0, 0, 0, 0, 0, 0, 0, 0, 0, 0, 0, 0,
      0, 0, 0, 0, 0, 0, 0, 0, 0, 0, 0, 0, 0, 0, 0, 0, 0, 0, 0, 0, 0, 0, 0, 0,
      0, 0, 0, 0, 0, 0, 0, 0, 0, 0, 0, 0, 0, 0, 0, 0, 0, 0, 0, 0, 0, 0, 0, 0,
      0, 0, 0, 0, 0, 0, 0, 0, 4, 0, 0, 0, 2, 0, 0, 0, 6, 0, 0, 0, 13, 0, 0, 0,
      2, 0, 0, 0, 0, 0, 0, 0, 0, 0, 0, 0, 5, 0, 0, 0, 0, 0, 0, 0, 0, 0, 0, 0,
      0, 0, 0, 0, 0, 0, 0, 0]"

definition sampleFAT :: bytes where
  "sampleFAT =
     [248, 255, 255, 255, 255, 255, 255, 255, 3, 0, 0, 0, 4, 0, 0, 0, 5, 0, 0, 0, 6, 0, 0, 0,
      7, 0, 0, 0, 255, 255, 255, 255, 9, 0, 0, 0, 10, 0, 0, 0, 11, 0, 0, 0, 12, 0, 0, 0,
      13, 0, 0, 0, 255, 255, 255, 255, 255, 255, 255, 255, 0, 0, 0, 0]"

definition sampleRoot :: bytes where
  "sampleRoot =
     [133, 2, 0, 0, 16, 0, 0, 0, 0, 0, 0, 0, 0, 0, 0, 0, 0, 0, 0, 0, 0, 0, 0, 0,
      0, 0, 0, 0, 0, 0, 0, 0, 192, 0, 0, 0, 0, 0, 0, 0, 0, 0, 0, 0, 0, 0, 0, 0,
      0, 0, 0, 0, 8, 0, 0, 0, 0, 0, 0, 0, 0, 0, 0, 0, 193, 0, 100, 0, 0, 0, 0, 0,
      0, 0, 0, 0, 0, 0, 0, 0, 0, 0, 0, 0, 0, 0, 0, 0, 0, 0, 0, 0, 0, 0, 0, 0,
      133, 2, 0, 0, 32, 0, 0, 0, 0, 0, 0, 0, 0, 0, 0, 0, 0, 0, 0, 0, 0, 0, 0, 0,
      0, 0, 0, 0, 0, 0, 0, 0, 192, 0, 0, 0, 0, 0, 0, 0, 0, 0, 0, 0, 0, 0, 0, 0,
      0, 0, 0, 0, 14, 0, 0, 0, 20, 0, 0, 0, 0, 0, 0, 0, 193, 0, 97, 0, 0, 0, 0, 0,
      0, 0, 0, 0, 0, 0, 0, 0, 0, 0, 0, 0, 0, 0, 0, 0, 0, 0, 0, 0, 0, 0, 0, 0]"

definition sampleDirD :: bytes where
  "sampleDirD =
     [133, 2, 0, 0, 32, 0, 0, 0, 0, 0, 0, 0, 0, 0, 0, 0, 0, 0, 0, 0, 0, 0, 0, 0,
      0, 0, 0, 0, 0, 0, 0, 0, 192, 0, 0, 0, 0, 0, 0, 0, 0, 0, 0, 0, 0, 0, 0, 0,
      0, 0, 0, 0, 0, 0, 0, 0, 0, 0, 0, 0, 0, 0, 0, 0, 193, 0, 101, 0, 0, 0, 0, 0,
      0, 0, 0, 0, 0, 0, 0, 0, 0, 0, 0, 0, 0, 0, 0, 0, 0, 0, 0, 0, 0, 0, 0, 0,
      133, 2, 0, 0, 32, 0, 0, 0, 0, 0, 0, 0, 0, 0, 0, 0, 0, 0, 0, 0, 0, 0, 0, 0,
      0, 0, 0, 0, 0, 0, 0, 0, 192, 0, 0, 0, 0, 0, 0, 0, 0, 0, 0, 0, 0, 0, 0, 0,
      0, 0, 0, 0, 14, 0, 0, 0, 100, 0, 0, 0, 0, 0, 0, 0, 193, 0, 98, 0, 0, 0, 0, 0,
      0, 0, 0, 0, 0, 0, 0, 0, 0, 0, 0, 0, 0, 0, 0, 0, 0, 0, 0, 0, 0, 0, 0, 0]"

definition sampleData :: bytes where
  "sampleData =
     [1, 2, 3, 4, 5, 6, 7, 8, 9, 10, 11, 12, 13, 14, 15, 16, 17, 18, 19, 20, 21, 22, 23, 24,
      25, 26, 27, 28, 29, 30, 31, 32]"

definition sampleImage :: bytes where
  "sampleImage = sampleBootRegion @ sampleFAT @ sampleRoot @ sampleDirD @ sampleData"

definition sampleBoot :: Boot where
  "sampleBoot = \<lparr> sectorSize = 32, clusterSize = 32, fatOffsetBytes = 128, fatLengthBytes = 64,
     clusterHeapOffsetBytes = 192, clusterCount = 13, rootDirCluster = 2 \<rparr>"

definition sampleReader :: ExfatReader where
  "sampleReader = \<lparr> buf = sampleImage, boot = sampleBoot \<rparr>"

text \<open>
  The sample image with a cycle in its FAT: the entry of cluster 15 (bytes 188 to 191)
  is 15 itself, and the file \<^verbatim>\<open>a\<close> starts at cluster 15 (byte 340). Cluster 15 would
  start at byte 608, where the image ends.
\<close>

definition cycImage :: bytes where
  "cycImage = sampleImage[188 := 15, 340 := 15]"

text \<open>
  An image of 100 bytes, the shortest the constructor accepts, whose root directory
  field is 0xFFFFFFFF, outside the clusters a chain may visit.
\<close>

definition badRootImage :: bytes where
  "badRootImage =
     [0, 0, 0, 0, 0, 0, 0, 0, 0, 0, 0, 0, 0, 0, 0, 0, 0, 0, 0, 0, 0, 0, 0, 0,
      0, 0, 0, 0, 0, 0, 0, 0, 0, 0, 0, 0, 0, 0, 0, 0, 0, 0, 0, 0, 0, 0, 0, 0,
      0, 0, 0, 0, 0, 0, 0, 0, 0, 0, 0, 0, 0, 0, 0, 0, 0, 0, 0, 0, 0, 0, 0, 0,
      0, 0, 0, 0, 0, 0, 0, 0, 0, 0, 0, 0, 0, 0, 0, 0, 0, 0, 0, 0, 0, 0, 0, 0,
      255, 255, 255, 255]"

definition badRootReader :: ExfatReader where
  "badRootReader = \<lparr> buf = badRootImage,
     boot = \<lparr> sectorSize = 1, clusterSize = 1, fatOffsetBytes = 0, fatLengthBytes = 0,
       clusterHeapOffsetBytes = 0, clusterCount = 0, rootDirCluster = 0xffffffff \<rparr> \<rparr>"

section \<open>Equal results\<close>

text \<open>Two paths give the same results in the four public operations.\<close>

definition sameResults :: "ExfatReader \<Rightarrow> jsstring \<Rightarrow> jsstring \<Rightarrow> bool" where
  "sameResults r p q \<longleftrightarrow>
     list r p = list r q \<and> exists r p = exists r q \<and> readFile r p = readFile r q
       \<and> walk r p = walk r q"

section \<open>Entry sets cut short\<close>

text \<open>
  The secondary entries a primary entry at index \<open>i\<close> can have inside the directory
  bytes: the whole 32-byte slots after it, by their indices.
\<close>

definition inBoundsSlots :: "bytes \<Rightarrow> nat \<Rightarrow> nat list" where
  "inBoundsSlots data i = map (\<lambda>m. i + 32 * (m + 1)) [0..<(length data - i) div 32 - 1]"

text \<open>
  What a run of secondary entries gives, from the name, first cluster and size so far:
  a Stream Extension entry (0xC0) sets the first cluster and the size (the 64-bit
  field as the double the code makes of it), a File Name
  entry (0xC1) appends the 15 code units of its bytes 2 to 31, any other entry changes
  nothing.
\<close>

primrec recovered :: "bytes \<Rightarrow> nat list \<Rightarrow> jsstring \<times> int \<times> int \<Rightarrow> jsstring \<times> int \<times> int" where
  "recovered data [] acc = acc"
| "recovered data (j # js) acc =
     recovered data js
       (case acc of (nm, fc, sz) \<Rightarrow>
          if data ! j = 0xc0 then
            (nm, le32 data (j + 0x14),
             toDouble (le32 data (j + 0x1c) * 2 ^ 32 + le32 data (j + 0x18)))
          else if data ! j = 0xc1 then (nm @ TD16_decode (take 30 (drop (j + 2) data)), fc, sz)
          else (nm, fc, sz))"

text \<open>
  Directory bytes that end inside an entry set: a primary entry that declares two
  secondary entries, a Stream Extension entry (first cluster 9, size field
  \<open>2 ^ 53 + 1\<close>, which the code reads as the double \<open>2 ^ 53\<close>), and the first six
  bytes of a File Name entry.
\<close>

definition cutDirectory :: bytes where
  "cutDirectory =
     [133, 2, 0, 0, 32, 0, 0, 0, 0, 0, 0, 0, 0, 0, 0, 0, 0, 0, 0, 0, 0, 0, 0, 0,
      0, 0, 0, 0, 0, 0, 0, 0, 192, 0, 0, 0, 0, 0, 0, 0, 0, 0, 0, 0, 0, 0, 0, 0,
      0, 0, 0, 0, 9, 0, 0, 0, 1, 0, 0, 0, 0, 0, 32, 0, 193, 0, 97, 0, 0, 0]"

section \<open>The tree a walk visits\<close>

text \<open>
  The directory tree as \<^verbatim>\<open>readDirectory\<close> shows it, with the walk item of each entry: a
  file is a leaf, and the children of a directory are the entries of the directory its
  first cluster starts, under the directory's path.
\<close>

datatype visited = Visited ExfatWalkItem "visited list"

fun preorder :: "visited \<Rightarrow> ExfatWalkItem list" where
  "preorder (Visited x ts) = x # concat (map preorder ts)"

fun subtrees :: "visited \<Rightarrow> visited list" where
  "subtrees (Visited x ts) = Visited x ts # concat (map subtrees ts)"

inductive dirForest :: "ExfatReader \<Rightarrow> jsstring \<Rightarrow> DirEntry list \<Rightarrow> visited list \<Rightarrow> bool" where
  forest_none: "dirForest r currentPath [] []"
| forest_file: "\<not> isDir e \<Longrightarrow> dirForest r currentPath es ts \<Longrightarrow>
     dirForest r currentPath (e # es) (Visited (fileItem currentPath e) [] # ts)"
| forest_dir: "isDir e \<Longrightarrow> readDirectory (buf r) (boot r) (firstCluster e) = Some (Inr sub) \<Longrightarrow>
     dirForest r (childPath currentPath e) sub cs \<Longrightarrow> dirForest r currentPath es ts \<Longrightarrow>
     dirForest r currentPath (e # es) (Visited (dirItem currentPath e) cs # ts)"

text \<open>
  The forest under the directory a path names: empty when the path does not resolve to
  a directory.
\<close>

definition walkForest :: "ExfatReader \<Rightarrow> jsstring \<Rightarrow> visited list \<Rightarrow> bool" where
  "walkForest r p ts \<longleftrightarrow>
     (case walk_from r (normalizePath p) (rootDirCluster (boot r)) of
        Some (Inr (Some cluster)) \<Rightarrow>
          (\<exists>entries. readDirectory (buf r) (boot r) cluster = Some (Inr entries)
             \<and> dirForest r (if normalizePath p \<noteq> [] then [slash] @ join (normalizePath p)
                              else [slash]) entries ts)
      | _ \<Rightarrow> ts = [])"

text \<open>What a walk of the sample image from the root returns.\<close>

definition sampleWalk :: "ExfatWalkItem list" where
  "sampleWalk =
     [\<lparr> path = [slash, 0x64], wi_isDir = True, wi_size = 0, read = None \<rparr>,
      \<lparr> path = [slash, 0x64, slash, 0x65], wi_isDir = False, wi_size = 0, read = Some (0, 0) \<rparr>,
      \<lparr> path = [slash, 0x64, slash, 0x62], wi_isDir = False, wi_size = 100, read = Some (14, 100) \<rparr>,
      \<lparr> path = [slash, 0x61], wi_isDir = False, wi_size = 20, read = Some (14, 20) \<rparr>]"

section \<open>The reader on a heap of array buffers\<close>

text \<open>
  The model above takes a \<^verbatim>\<open>Uint8Array\<close> for the bytes it shows. To say that the image
  is never written, the same code is modelled once more with the memory made explicit:
  the heap is the list of the \<^verbatim>\<open>ArrayBuffer\<close>s allocated so far, a \<^verbatim>\<open>Uint8Array\<close>
  is a window on one of them, and every operation takes the heap and returns the heap
  it leaves, also when it throws. Only \<^verbatim>\<open>new Uint8Array(total)\<close> and
  \<^verbatim>\<open>out.set(s, p)\<close> in \<^verbatim>\<open>readChain\<close> change the heap; decoding entries and strings
  reads it.
\<close>

type_synonym heap = "bytes list"

record Uint8Array =
  buffer :: nat
  byteOffset :: nat
  byteLength :: nat

definition contents :: "heap \<Rightarrow> Uint8Array \<Rightarrow> bytes" where
  "contents h a = take (byteLength a) (drop (byteOffset a) (h ! buffer a))"

definition validView :: "heap \<Rightarrow> Uint8Array \<Rightarrow> bool" where
  "validView h a \<longleftrightarrow> buffer a < length h \<and> byteOffset a + byteLength a \<le> length (h ! buffer a)"

text \<open>\<^verbatim>\<open>subarray\<close> makes a window on the same buffer.\<close>

definition subarrayM :: "Uint8Array \<Rightarrow> int \<Rightarrow> int \<Rightarrow> Uint8Array" where
  "subarrayM a begin fin =
     (let len = int (byteLength a);
          beginIndex = (if begin < 0 then max (len + begin) 0 else min begin len);
          endIndex = (if fin < 0 then max (len + fin) 0 else min fin len)
      in \<lparr> buffer = buffer a, byteOffset = byteOffset a + nat beginIndex,
           byteLength = nat (endIndex - beginIndex) \<rparr>)"

text \<open>\<^verbatim>\<open>new Uint8Array(n)\<close> allocates a buffer of \<open>n\<close> zero bytes.\<close>

definition newUint8Array :: "heap \<Rightarrow> nat \<Rightarrow> Uint8Array \<times> heap" where
  "newUint8Array h n =
     (\<lparr> buffer = length h, byteOffset = 0, byteLength = n \<rparr>, h @ [replicate n 0])"

text \<open>
  \<^verbatim>\<open>out.set(s, p)\<close> copies the bytes of \<open>s\<close> into the buffer of \<open>out\<close>, from index
  \<open>p\<close> of \<open>out\<close>; it throws when they do not fit.
\<close>

definition setM :: "heap \<Rightarrow> Uint8Array \<Rightarrow> Uint8Array \<Rightarrow> nat \<Rightarrow> error + heap" where
  "setM h out s p =
     (if p + byteLength s > byteLength out then Inl RangeError
      else Inr (h[buffer out :=
             take (byteOffset out + p) (h ! buffer out) @ contents h s
               @ drop (byteOffset out + p + byteLength s) (h ! buffer out)]))"

type_synonym 'a outcome = "((error + 'a) \<times> heap) option"

definition bindM :: "'a outcome \<Rightarrow> ('a \<Rightarrow> heap \<Rightarrow> 'b outcome) \<Rightarrow> 'b outcome" where
  "bindM m f =
     (case m of None \<Rightarrow> None | Some (Inl e, h) \<Rightarrow> Some (Inl e, h) | Some (Inr x, h) \<Rightarrow> f x h)"

text \<open>The loop of \<^verbatim>\<open>readChain\<close>: it reads the FAT through the image and collects windows.\<close>

partial_function (option) chainLoopM ::
  "heap \<Rightarrow> Uint8Array \<Rightarrow> Boot \<Rightarrow> int \<Rightarrow> int option \<Rightarrow> Uint8Array list
     \<Rightarrow> (error + Uint8Array list) option" where
  "chainLoopM h b bt c remaining chunks =
     (if c \<ge> 2 \<and> c < 0x0fffffff then
        (let off = clusterOffset bt c;
             sz = clusterSize bt;
             slice = subarrayM b off (off + sz);
             pushed =
               (case remaining of
                  None \<Rightarrow> Some (chunks @ [slice], None)
                | Some rem \<Rightarrow>
                    if rem \<le> 0 then None
                    else Some (chunks @ [subarrayM slice 0 (min (int (byteLength slice)) rem)],
                               Some (rem - min (int (byteLength slice)) rem)))
         in case pushed of
              None \<Rightarrow> Some (Inr chunks)
            | Some (chunks', remaining') \<Rightarrow>
                (case readFATNext (contents h b) bt c of
                   Inl e \<Rightarrow> Some (Inl e)
                 | Inr nxt \<Rightarrow>
                     if isEndOfChain nxt then Some (Inr chunks')
                     else chainLoopM h b bt nxt remaining' chunks'))
      else Some (Inr chunks))"

declare chainLoopM.simps [code]

text \<open>The loop that copies the chunks into \<^verbatim>\<open>out\<close>, on \<^verbatim>\<open>p\<close> and the heap.\<close>

fun copyChunks :: "heap \<Rightarrow> Uint8Array \<Rightarrow> Uint8Array list \<Rightarrow> nat \<Rightarrow> (error + unit) \<times> heap" where
  "copyChunks h out [] p = (Inr (), h)"
| "copyChunks h out (s # ss) p =
     (case setM h out s p of
        Inl e \<Rightarrow> (Inl e, h)
      | Inr h' \<Rightarrow> copyChunks h' out ss (p + byteLength s))"

definition readChainM ::
  "heap \<Rightarrow> Uint8Array \<Rightarrow> Boot \<Rightarrow> int \<Rightarrow> int option \<Rightarrow> Uint8Array outcome" where
  "readChainM h b bt startCluster limitBytes =
     (case chainLoopM h b bt startCluster limitBytes [] of
        None \<Rightarrow> None
      | Some (Inl e) \<Rightarrow> Some (Inl e, h)
      | Some (Inr chunks) \<Rightarrow>
          if length chunks = 1 then Some (Inr (hd chunks), h)
          else (case newUint8Array h (sum_list (map byteLength chunks)) of
                  (out, h1) \<Rightarrow>
                    (case copyChunks h1 out chunks 0 of
                       (Inl e, h2) \<Rightarrow> Some (Inl e, h2)
                     | (Inr u, h2) \<Rightarrow> Some (Inr out, h2))))"

definition readDirectoryM ::
  "heap \<Rightarrow> Uint8Array \<Rightarrow> Boot \<Rightarrow> int \<Rightarrow> DirEntry list outcome" where
  "readDirectoryM h b bt startCluster =
     bindM (readChainM h b bt startCluster None)
       (\<lambda>data h'. Some (scanEntries (contents h' data) 0 [], h'))"

record ExfatReaderM =
  bufM :: Uint8Array
  bootM :: Boot

primrec list_fromM :: "ExfatReaderM \<Rightarrow> jsstring list \<Rightarrow> int \<Rightarrow> heap \<Rightarrow> ExfatListItem list outcome" where
  "list_fromM r [] cluster h =
     bindM (readDirectoryM h (bufM r) (bootM r) cluster)
       (\<lambda>out h'. Some (Inr (map toListItem out), h'))"
| "list_fromM r (part # parts) cluster h =
     bindM (readDirectoryM h (bufM r) (bootM r) cluster) (\<lambda>entries h'.
       case find (\<lambda>e. isDir e \<and> name e = part) entries of
         None \<Rightarrow> Some (Inr [], h')
       | Some nxt \<Rightarrow> list_fromM r parts (firstCluster nxt) h')"

definition listM :: "ExfatReaderM \<Rightarrow> jsstring \<Rightarrow> heap \<Rightarrow> ExfatListItem list outcome" where
  "listM r p h = list_fromM r (normalizePath p) (rootDirCluster (bootM r)) h"

primrec exists_fromM :: "ExfatReaderM \<Rightarrow> jsstring list \<Rightarrow> int \<Rightarrow> heap \<Rightarrow> bool outcome" where
  "exists_fromM r [] cluster h = Some (Inr True, h)"
| "exists_fromM r (part # parts) cluster h =
     bindM (readDirectoryM h (bufM r) (bootM r) cluster) (\<lambda>entries h'.
       case find (\<lambda>e. name e = part \<and> (parts = [] \<or> isDir e)) entries of
         None \<Rightarrow> Some (Inr False, h')
       | Some found \<Rightarrow> exists_fromM r parts (firstCluster found) h')"

definition existsM :: "ExfatReaderM \<Rightarrow> jsstring \<Rightarrow> heap \<Rightarrow> bool outcome" where
  "existsM r p h = exists_fromM r (normalizePath p) (rootDirCluster (bootM r)) h"

primrec readFile_fromM ::
  "ExfatReaderM \<Rightarrow> jsstring list \<Rightarrow> int \<Rightarrow> heap \<Rightarrow> Uint8Array option outcome" where
  "readFile_fromM r [] cluster h = Some (Inr None, h)"
| "readFile_fromM r (part # parts) cluster h =
     bindM (readDirectoryM h (bufM r) (bootM r) cluster) (\<lambda>entries h'.
       case find (\<lambda>e. name e = part \<and> (if parts \<noteq> [] then isDir e else \<not> isDir e)) entries of
         None \<Rightarrow> Some (Inr None, h')
       | Some found \<Rightarrow>
           if parts = [] then
             bindM (readChainM h' (bufM r) (bootM r) (firstCluster found) (Some (size_e found)))
               (\<lambda>content h''. Some (Inr (Some content), h''))
           else readFile_fromM r parts (firstCluster found) h')"

definition readFileM :: "ExfatReaderM \<Rightarrow> jsstring \<Rightarrow> heap \<Rightarrow> Uint8Array option outcome" where
  "readFileM r p h = readFile_fromM r (normalizePath p) (rootDirCluster (bootM r)) h"

primrec walk_fromM :: "ExfatReaderM \<Rightarrow> jsstring list \<Rightarrow> int \<Rightarrow> heap \<Rightarrow> int option outcome" where
  "walk_fromM r [] cluster h = Some (Inr (Some cluster), h)"
| "walk_fromM r (part # parts) cluster h =
     bindM (readDirectoryM h (bufM r) (bootM r) cluster) (\<lambda>entries h'.
       case find (\<lambda>e. isDir e \<and> name e = part) entries of
         None \<Rightarrow> Some (Inr None, h')
       | Some nxt \<Rightarrow> walk_fromM r parts (firstCluster nxt) h')"

partial_function (option) visitEntriesM ::
  "ExfatReaderM \<Rightarrow> jsstring \<Rightarrow> DirEntry list \<Rightarrow> ExfatWalkItem list \<Rightarrow> heap
     \<Rightarrow> ((error + ExfatWalkItem list) \<times> heap) option" where
  "visitEntriesM r currentPath entries result h =
     (case entries of
        [] \<Rightarrow> Some (Inr result, h)
      | e # es \<Rightarrow>
          if isDir e then
            (case readDirectoryM h (bufM r) (bootM r) (firstCluster e) of
               None \<Rightarrow> None
             | Some (Inl err, h') \<Rightarrow> Some (Inl err, h')
             | Some (Inr sub, h') \<Rightarrow>
                 Option.bind
                   (visitEntriesM r (childPath currentPath e) sub
                      (result @ [dirItem currentPath e]) h')
                   (\<lambda>visited. case visited of
                        (Inl err, h'') \<Rightarrow> Some (Inl err, h'')
                      | (Inr result', h'') \<Rightarrow> visitEntriesM r currentPath es result' h''))
          else visitEntriesM r currentPath es (result @ [fileItem currentPath e]) h)"

declare visitEntriesM.simps [code]

definition visitM ::
  "ExfatReaderM \<Rightarrow> jsstring \<Rightarrow> int \<Rightarrow> ExfatWalkItem list \<Rightarrow> heap \<Rightarrow> ExfatWalkItem list outcome" where
  "visitM r currentPath c result h =
     bindM (readDirectoryM h (bufM r) (bootM r) c)
       (\<lambda>entries h'. visitEntriesM r currentPath entries result h')"

definition walkM :: "ExfatReaderM \<Rightarrow> jsstring \<Rightarrow> heap \<Rightarrow> ExfatWalkItem list outcome" where
  "walkM r p h =
     (let parts = normalizePath p
      in bindM (walk_fromM r parts (rootDirCluster (bootM r)) h) (\<lambda>resolved h'.
           case resolved of
             None \<Rightarrow> Some (Inr [], h')
           | Some cluster \<Rightarrow>
               visitM r (if parts \<noteq> [] then [slash] @ join parts else [slash]) cluster [] h'))"

definition invokeReadM :: "ExfatReaderM \<Rightarrow> int \<times> int \<Rightarrow> heap \<Rightarrow> Uint8Array outcome" where
  "invokeReadM r captured h =
     readChainM h (bufM r) (bootM r) (fst captured) (Some (snd captured))"

text \<open>
  A heap after an operation: the buffers that were there are all there, byte for byte,
  and new ones may follow them.
\<close>

definition unchanged :: "heap \<Rightarrow> heap \<Rightarrow> bool" where
  "unchanged h h' \<longleftrightarrow> take (length h) h' = h"

text \<open>
  An operation leaves intact what was on the heap, the image of the reader included,
  however it ends.
\<close>

definition imageIntact :: "ExfatReaderM \<Rightarrow> heap \<Rightarrow> 'a outcome \<Rightarrow> bool" where
  "imageIntact r h m \<longleftrightarrow>
     (case m of
        None \<Rightarrow> True
      | Some (x, h') \<Rightarrow> unchanged h h' \<and> contents h' (bufM r) = contents h (bufM r))"

text \<open>
  What a caller sees of \<^verbatim>\<open>readFile\<close>: the error, \<^verbatim>\<open>null\<close>, or the bytes of the array
  returned.
\<close>

definition observed :: "Uint8Array option outcome \<Rightarrow> (error + bytes option) option" where
  "observed m =
     (case m of
        None \<Rightarrow> None
      | Some (Inl e, h') \<Rightarrow> Some (Inl e)
      | Some (Inr res, h') \<Rightarrow> Some (Inr (map_option (contents h') res)))"

text \<open>The reader of the first model that a reader on the heap stands for.\<close>

definition pureReader :: "heap \<Rightarrow> ExfatReaderM \<Rightarrow> ExfatReader" where
  "pureReader h r = \<lparr> buf = contents h (bufM r), boot = bootM r \<rparr>"

text \<open>The sample image as the only buffer of a heap, and a reader on it.\<close>

definition sampleReaderM :: ExfatReaderM where
  "sampleReaderM = \<lparr> bufM = \<lparr> buffer = 0, byteOffset = 0, byteLength = 608 \<rparr>,
     bootM = sampleBoot \<rparr>"

section \<open>Construction\<close>

lemma getUint32_short: "int (length d) < off + 4 \<Longrightarrow> getUint32 d off = Inl RangeError"
  by (simp add: getUint32_def)

lemma getUint32_in:
  "0 \<le> off \<Longrightarrow> off + 4 \<le> int (length d) \<Longrightarrow> getUint32 d off = Inr (le32 d (nat off))"
  by (simp add: getUint32_def)

lemma error_unique: "(e :: error) = RangeError"
  by (cases e)

lemma parseBoot_short:
  assumes "length b < 0x64"
  shows "parseBoot b = Inl RangeError"
proof -
  have "readU32 b 0x60 = Inl RangeError"
    using assms by (simp add: readU32_def getUint32_def)
  then show ?thesis
    by (simp add: parseBoot_def bindE_def Let_def error_unique split: sum.splits)
qed

lemma parseBoot_long:
  assumes "0x64 \<le> length b"
  shows "\<exists>bt. parseBoot b = Inr bt"
  using assms by (simp add: parseBoot_def bindE_def Let_def readU32_def getUint32_def)

text \<open>
  C1. An image shorter than 0x64 bytes makes the constructor fail, with the
  \<^verbatim>\<open>RangeError\<close> of the first 32-bit field that does not fit (the only error of the
  constructor, the specification's MalformedBootSector); an image of at least 0x64
  bytes is accepted whatever it holds, and the reader keeps it as it is.
\<close>

theorem constructor_fails_iff_short:
  "(length img < 0x64 \<longrightarrow> newExfatReader img = Inl RangeError) \<and>
   (0x64 \<le> length img \<longrightarrow> (\<exists>r. newExfatReader img = Inr r \<and> buf r = img))"
proof (intro conjI impI)
  assume "length img < 0x64"
  then show "newExfatReader img = Inl RangeError"
    by (simp add: newExfatReader_def bindE_def parseBoot_short)
next
  assume "0x64 \<le> length img"
  then obtain bt where "parseBoot img = Inr bt"
    using parseBoot_long by blast
  then show "\<exists>r. newExfatReader img = Inr r \<and> buf r = img"
    by (simp add: newExfatReader_def bindE_def)
qed

theorem constructor_fails_iff_short_witness:
  "newExfatReader (replicate 99 0) = Inl RangeError \<and>
   (\<exists>r. newExfatReader (replicate 100 0) = Inr r \<and> buf r = replicate 100 0)"
  using constructor_fails_iff_short [of "replicate 99 0"]
    constructor_fails_iff_short [of "replicate 100 0"]
  by simp

section \<open>Chain reads\<close>

lemma subarray_take: "0 \<le> n \<Longrightarrow> subarray s 0 n = take (nat n) s"
  by (auto simp: subarray_def Let_def min_def)

lemma chunks_result: "(if length chunks = 1 then hd chunks else concat chunks) = concat chunks"
  by (cases chunks) auto

lemma readChain_concat:
  "readChain b bt c lim =
     (case chainLoop b bt c lim [] of
        None \<Rightarrow> None
      | Some (Inl e) \<Rightarrow> Some (Inl e)
      | Some (Inr chunks) \<Rightarrow> Some (Inr (concat chunks)))"
  unfolding readChain_def chunks_result ..








lemma chainLoop_limit_bound:
  assumes "chainLoop b bt c (Some rem) chunks = Some (Inr out)"
  shows "int (length (concat out)) \<le> int (length (concat chunks)) + max 0 rem"
proof -
  have "\<forall>rem out. remaining = Some rem \<longrightarrow> y = Inr out \<longrightarrow>
      int (length (concat out)) \<le> int (length (concat chunks)) + max 0 rem"
    if "chainLoop b bt c remaining chunks = Some y" for remaining y
  proof (rule chainLoop.raw_induct[where P = "\<lambda>b bt c remaining chunks y.
      \<forall>rem out. remaining = Some rem \<longrightarrow> y = Inr out \<longrightarrow>
        int (length (concat out)) \<le> int (length (concat chunks)) + max 0 rem", OF _ that],
      goal_cases)
    case (1 loop b bt c remaining chunks y)
    show ?case
    proof (intro allI impI)
      fix rem out
      assume rem: "remaining = Some rem" and y: "y = Inr out"
      show "int (length (concat out)) \<le> int (length (concat chunks)) + max 0 rem"
      proof (cases "2 \<le> c \<and> c < 0x0fffffff")
        case False
        with 1(2) y show ?thesis by auto
      next
        case inrange: True
        show ?thesis
        proof (cases "rem \<le> 0")
          case True
          with 1(2) inrange rem y show ?thesis by (auto simp: Let_def)
        next
          case False
          let ?slice = "subarray b (clusterOffset bt c) (clusterOffset bt c + clusterSize bt)"
          let ?m = "min (int (length ?slice)) rem"
          have m: "0 \<le> ?m" "?m \<le> rem" using False by auto
          from 1(2) inrange False rem y obtain nxt where
            nxt: "readFATNext b bt c = Inr nxt"
            and body: "(if isEndOfChain nxt then Some (Inr (chunks @ [subarray ?slice 0 ?m]))
               else loop b bt nxt (Some (rem - ?m)) (chunks @ [subarray ?slice 0 ?m])) = Some y"
            by (auto simp: Let_def split: sum.splits)
          have len: "int (length (subarray ?slice 0 ?m)) \<le> ?m"
            using m by (simp add: subarray_take)
          show ?thesis
          proof (cases "isEndOfChain nxt")
            case True
            with body y len m show ?thesis by auto
          next
            case False
            with body have "loop b bt nxt (Some (rem - ?m)) (chunks @ [subarray ?slice 0 ?m]) = Some y"
              by simp
            from 1(1)[OF this] y len m show ?thesis by auto
          qed
        qed
      qed
    qed
  qed
  from this[OF assms] show ?thesis by simp
qed

lemma readChain_limit_le:
  "readChain b bt c (Some N) = Some (Inr out) \<Longrightarrow> int (length out) \<le> max 0 N"
  using chainLoop_limit_bound[of b bt c N "[]"]
  by (auto simp: readChain_concat split: option.splits sum.splits)

lemma take_slice_split:
  assumes "0 < rem"
  shows "take (nat rem) (xs @ ys) =
    take (nat (min (int (length xs)) rem)) xs
      @ take (nat (rem - min (int (length xs)) rem)) ys"
proof (cases "int (length xs) \<le> rem")
  case True
  then have "nat rem - length xs = nat (rem - int (length xs))" by linarith
  with True show ?thesis by (simp add: min_def)
next
  case False
  then show ?thesis using assms by (simp add: min_def)
qed

lemma chainLoop_limit_prefix:
  assumes "chainLoop b bt c None chunks = Some (Inr out)"
  shows "\<exists>new. out = chunks @ new \<and>
    (\<forall>rem chunksL. \<exists>outL. chainLoop b bt c (Some rem) chunksL = Some (Inr outL)
        \<and> concat outL = concat chunksL @ take (nat rem) (concat new))"
proof -
  have "remaining = None \<longrightarrow> (\<forall>out. y = Inr out \<longrightarrow> (\<exists>new. out = chunks @ new \<and>
    (\<forall>rem chunksL. \<exists>outL. chainLoop b bt c (Some rem) chunksL = Some (Inr outL)
        \<and> concat outL = concat chunksL @ take (nat rem) (concat new))))"
    if "chainLoop b bt c remaining chunks = Some y" for remaining y
  proof (rule chainLoop.raw_induct[where P = "\<lambda>b bt c remaining chunks y.
      remaining = None \<longrightarrow> (\<forall>out. y = Inr out \<longrightarrow> (\<exists>new. out = chunks @ new \<and>
      (\<forall>rem chunksL. \<exists>outL. chainLoop b bt c (Some rem) chunksL = Some (Inr outL)
        \<and> concat outL = concat chunksL @ take (nat rem) (concat new))))", OF _ that],
      goal_cases)
    case (1 loop b bt c remaining chunks y)
    show ?case
    proof (intro allI impI)
      fix out
      assume rem: "remaining = None" and y: "y = Inr out"
      show "\<exists>new. out = chunks @ new \<and>
        (\<forall>rem chunksL. \<exists>outL. chainLoop b bt c (Some rem) chunksL = Some (Inr outL)
          \<and> concat outL = concat chunksL @ take (nat rem) (concat new))"
      proof (cases "2 \<le> c \<and> c < 0x0fffffff")
        case False
        with 1(2) y have "out = chunks" by auto
        moreover have "chainLoop b bt c (Some rem) chunksL = Some (Inr chunksL)" for rem chunksL
          using False by (subst chainLoop.simps) auto
        ultimately show ?thesis by auto
      next
        case inrange: True
        let ?slice = "subarray b (clusterOffset bt c) (clusterOffset bt c + clusterSize bt)"
        from 1(2) inrange rem y obtain nxt where
          nxt: "readFATNext b bt c = Inr nxt"
          and body: "(if isEndOfChain nxt then Some (Inr (chunks @ [?slice]))
             else loop b bt nxt None (chunks @ [?slice])) = Some y"
          by (auto simp: Let_def split: sum.splits)
        have limited: "chainLoop b bt c (Some rem) chunksL =
            (if rem \<le> 0 then Some (Inr chunksL)
             else if isEndOfChain nxt
               then Some (Inr (chunksL @ [take (nat (min (int (length ?slice)) rem)) ?slice]))
               else chainLoop b bt nxt (Some (rem - min (int (length ?slice)) rem))
                      (chunksL @ [take (nat (min (int (length ?slice)) rem)) ?slice]))"
          for rem chunksL
          using inrange nxt
          by (subst chainLoop.simps) (auto simp: Let_def subarray_take)
        show ?thesis
        proof (cases "isEndOfChain nxt")
          case True
          with body y have out: "out = chunks @ [?slice]" by simp
          have "\<exists>outL. chainLoop b bt c (Some rem) chunksL = Some (Inr outL)
            \<and> concat outL = concat chunksL @ take (nat rem) (concat [?slice])" for rem chunksL
            using True by (cases "rem \<le> 0") (auto simp: limited min_def)
          with out show ?thesis by blast
        next
          case False
          with body have "loop b bt nxt None (chunks @ [?slice]) = Some y" by simp
          from 1(1)[OF this] y obtain new where
            out: "out = (chunks @ [?slice]) @ new"
            and lim: "\<And>rem chunksL. \<exists>outL. chainLoop b bt nxt (Some rem) chunksL = Some (Inr outL)
              \<and> concat outL = concat chunksL @ take (nat rem) (concat new)"
            by auto
          have "\<exists>outL. chainLoop b bt c (Some rem) chunksL = Some (Inr outL)
            \<and> concat outL = concat chunksL @ take (nat rem) (concat (?slice # new))" for rem chunksL
          proof (cases "rem \<le> 0")
            case True
            then show ?thesis by (simp add: limited)
          next
            case pos: False
            let ?m = "min (int (length ?slice)) rem"
            from lim[of "rem - ?m" "chunksL @ [take (nat ?m) ?slice]"] obtain outL where
              "chainLoop b bt nxt (Some (rem - ?m)) (chunksL @ [take (nat ?m) ?slice]) = Some (Inr outL)"
              "concat outL = concat (chunksL @ [take (nat ?m) ?slice]) @ take (nat (rem - ?m)) (concat new)"
              by blast
            moreover have "take (nat rem) (concat (?slice # new))
                = take (nat ?m) ?slice @ take (nat (rem - ?m)) (concat new)"
              using pos take_slice_split[of rem ?slice "concat new"] by simp
            ultimately show ?thesis
              using pos False by (simp add: limited)
          qed
          with out show ?thesis by (intro exI[of _ "?slice # new"]) simp
        qed
      qed
    qed
  qed
  from this[OF assms] show ?thesis by simp
qed

lemma readChain_limit_take:
  assumes "readChain b bt c None = Some (Inr whole)"
  shows "readChain b bt c (Some N) = Some (Inr (take (nat N) whole))"
proof -
  from assms obtain out where out: "chainLoop b bt c None [] = Some (Inr out)" "whole = concat out"
    by (auto simp: readChain_concat split: option.splits sum.splits)
  from chainLoop_limit_prefix[OF out(1)] obtain outL where
    "chainLoop b bt c (Some N) [] = Some (Inr outL)" "concat outL = take (nat N) (concat out)"
    by fastforce
  with out show ?thesis by (simp add: readChain_concat)
qed

text \<open>
  C4, as the code has it. Whatever the start cluster and the limit \<open>N\<close>, the bytes
  \<^verbatim>\<open>readChain\<close> returns with \<^verbatim>\<open>limitBytes = N\<close>, when it returns, are at most \<open>N\<close>
  (none for a limit below 0): the loop takes from each cluster no more than what is
  left of the limit. And where the chain read without a limit returns, the read with
  the limit returns too, with the first \<open>N\<close> bytes of the chain: the last cluster
  visited is cut where the limit is reached. The read does not return for every start
  cluster and limit: there is no cycle detection.
\<close>

theorem readChain_limit_bound:
  "(\<forall>out. readChain b bt c (Some N) = Some (Inr out) \<longrightarrow> int (length out) \<le> max 0 N)
   \<and> (\<forall>whole. readChain b bt c None = Some (Inr whole) \<longrightarrow>
          readChain b bt c (Some N) = Some (Inr (take (nat N) whole)))"
  using readChain_limit_le readChain_limit_take by blast

theorem readChain_limit_bound_witness:
  "readChain sampleImage sampleBoot 2 None = Some (Inr sampleRoot)
   \<and> readChain sampleImage sampleBoot 2 (Some 40) = Some (Inr (take 40 sampleRoot))
   \<and> int (length (take 40 sampleRoot)) \<le> max 0 40"
proof -
  have whole: "readChain sampleImage sampleBoot 2 None = Some (Inr sampleRoot)"
    by code_simp
  note t = readChain_limit_bound[of sampleImage sampleBoot 2 40]
  from t whole have lim: "readChain sampleImage sampleBoot 2 (Some 40)
      = Some (Inr (take (nat 40) sampleRoot))"
    by blast
  with t have "int (length (take (nat 40) sampleRoot)) \<le> max 0 40"
    by blast
  with whole lim show ?thesis by simp
qed

lemma cycle_step:
  "subarray cycImage (clusterOffset sampleBoot 15)
     (clusterOffset sampleBoot 15 + clusterSize sampleBoot) = []"
  "readFATNext cycImage sampleBoot 15 = Inr 15"
  "\<not> isEndOfChain 15"
  by code_simp+

lemma cycle_never_returns: "chainLoop cycImage sampleBoot 15 (Some 20) chunks = None"
proof (rule ccontr)
  assume "chainLoop cycImage sampleBoot 15 (Some 20) chunks \<noteq> None"
  then obtain y where y: "chainLoop cycImage sampleBoot 15 (Some 20) chunks = Some y"
    by auto
  have "\<not> (b = cycImage \<and> bt = sampleBoot \<and> c = 15 \<and> remaining = Some 20)"
    if "chainLoop b bt c remaining chunks = Some y" for b bt c remaining chunks y
  proof (rule chainLoop.raw_induct[where P = "\<lambda>b bt c remaining chunks y.
      \<not> (b = cycImage \<and> bt = sampleBoot \<and> c = 15 \<and> remaining = Some 20)", OF _ that],
      goal_cases)
    case (1 loop b bt c remaining chunks y)
    show ?case
    proof
      assume "b = cycImage \<and> bt = sampleBoot \<and> c = 15 \<and> remaining = Some 20"
      with 1(2) have "loop cycImage sampleBoot 15 (Some 20) (chunks @ [[]]) = Some y"
        by (simp add: Let_def cycle_step subarray_take)
      from 1(1)[OF this] show False by simp
    qed
  qed
  from this[OF y] show False by simp
qed

text \<open>
  C4, as stated, fails: on the image with the FAT cycle the read of the chain of
  cluster 15 with a limit of 20 bytes returns nothing. Cluster 15 starts where the image
  ends, so its slice is empty and leaves the 20 bytes of the limit untouched, and its
  FAT entry leads back to cluster 15: the loop never ends.
\<close>

theorem readChain_on_cycle_never_returns:
  "newExfatReader cycImage = Inr \<lparr> buf = cycImage, boot = sampleBoot \<rparr>
   \<and> readChain cycImage sampleBoot 15 (Some 20) = None"
proof -
  have "newExfatReader cycImage = Inr \<lparr> buf = cycImage, boot = sampleBoot \<rparr>"
    by code_simp
  then show ?thesis
    by (simp add: readChain_def cycle_never_returns)
qed

section \<open>Paths\<close>

lemma splitSlash_nonempty: "splitSlash p \<noteq> []"
  by (induction p) (auto split: list.splits)

lemma splitSlash_append: "splitSlash (a @ slash # b) = splitSlash a @ splitSlash b"
proof (induction a)
  case Nil
  then show ?case by simp
next
  case (Cons u us)
  then show ?case
    using splitSlash_nonempty[of us] by (cases "splitSlash us") auto
qed

lemma normalizePath_append: "normalizePath (a @ slash # b) = normalizePath a @ normalizePath b"
  by (simp add: normalizePath_def splitSlash_append)

lemma normalizePath_Nil: "normalizePath [] = []"
  by (simp add: normalizePath_def)

lemma normalizePath_leading: "normalizePath (slash # p) = normalizePath p"
  using normalizePath_append[of "[]" p] by (simp add: normalizePath_Nil)

lemma normalizePath_trailing: "normalizePath (p @ [slash]) = normalizePath p"
  using normalizePath_append[of p "[]"] by (simp add: normalizePath_Nil)

lemma normalizePath_duplicate: "normalizePath (a @ slash # slash # b) = normalizePath (a @ slash # b)"
  by (simp add: normalizePath_append normalizePath_leading)

section \<open>Reading files\<close>

lemma getUint32_nonneg: "getUint32 d off = Inr v \<Longrightarrow> 0 \<le> v"
  by (auto simp: getUint32_def le32_def split: if_splits)

lemma ulp53_pos: "0 < ulp53 x"
proof (induction x rule: ulp53.induct)
  case (1 x)
  then show ?case
    by (subst ulp53.simps) auto
qed

lemma toDouble_nonneg:
  assumes "0 \<le> x"
  shows "0 \<le> toDouble x"
proof -
  have "0 \<le> x div ulp53 x"
    using assms ulp53_pos[of x] by (simp add: pos_imp_zdiv_nonneg_iff)
  then show ?thesis
    using ulp53_pos[of x] by (simp add: toDouble_def Let_def)
qed

lemma readU64_nonneg: "readU64 d off = Inr v \<Longrightarrow> 0 \<le> v"
  by (auto simp: readU64_def bindE_def split: sum.splits
      dest!: getUint32_nonneg intro!: toDouble_nonneg)

lemma secondaries_size_nonneg:
  "secondaries data secondaryCount consumed j nm fc sz = Inr (nm', fc', sz', j') \<Longrightarrow> 0 \<le> sz
     \<Longrightarrow> 0 \<le> sz'"
proof (induction data secondaryCount consumed j nm fc sz rule: secondaries.induct)
  case (1 data secondaryCount consumed j nm fc sz)
  show ?case
  proof (cases "consumed \<le> secondaryCount \<and> j + 32 \<le> length data")
    case True
    with "1.prems" "1.IH" show ?thesis
      by (subst (asm) secondaries.simps)
        (auto split: if_splits sum.splits dest: readU64_nonneg)
  next
    case False
    with "1.prems" show ?thesis
      by (subst (asm) secondaries.simps) simp
  qed
qed

lemma scanEntries_size_nonneg:
  "scanEntries data i res = Inr out \<Longrightarrow> \<forall>e \<in> set res. 0 \<le> size_e e
     \<Longrightarrow> \<forall>e \<in> set out. 0 \<le> size_e e"
proof (induction data i res rule: scanEntries.induct)
  case (1 data i res)
  show ?case
  proof (cases "i + 32 \<le> length data")
    case True
    with "1.prems" "1.IH" show ?thesis
      by (subst (asm) scanEntries.simps)
        (auto split: if_splits sum.splits prod.splits dest: secondaries_size_nonneg)
  next
    case False
    with "1.prems" show ?thesis
      by (subst (asm) scanEntries.simps) simp
  qed
qed

lemma readDirectory_size_nonneg:
  "readDirectory b bt c = Some (Inr entries) \<Longrightarrow> e \<in> set entries \<Longrightarrow> 0 \<le> size_e e"
  using scanEntries_size_nonneg[of _ 0 "[]" entries]
  by (auto simp: readDirectory_def bindR_def split: option.splits sum.splits)

lemma find_Some_mem: "find P xs = Some x \<Longrightarrow> x \<in> set xs"
  by (auto simp: find_Some_iff)

lemma resolvesTo_size_nonneg: "resolvesTo r c parts e \<Longrightarrow> 0 \<le> size_e e"
proof (induction parts arbitrary: c)
  case Nil
  then show ?case by simp
next
  case (Cons part parts)
  then show ?case
    by (auto split: option.splits sum.splits if_splits
        dest: find_Some_mem readDirectory_size_nonneg)
qed

lemma readFile_from_resolved:
  "resolvesTo r c parts e \<Longrightarrow>
   readFile_from r parts c =
     bindR (readChain (buf r) (boot r) (firstCluster e) (Some (size_e e)))
       (\<lambda>content. Some (Inr (Some content)))"
proof (induction parts arbitrary: c)
  case Nil
  then show ?case by simp
next
  case (Cons part parts)
  then show ?case
    by (auto simp: bindR_def split: option.splits sum.splits if_splits)
qed


lemma sample_fields:
  "buf sampleReader = sampleImage" "boot sampleReader = sampleBoot"
  "rootDirCluster sampleBoot = 2"
  by (simp_all add: sampleReader_def sampleBoot_def)

lemma sample_root:
  "readDirectory sampleImage sampleBoot 2 = Some (Inr
     [\<lparr> name = [0x64], isDir = True, size_e = 0, firstCluster = 8 \<rparr>,
      \<lparr> name = [0x61], isDir = False, size_e = 20, firstCluster = 14 \<rparr>])"
  by code_simp

lemma sample_dirD:
  "readDirectory sampleImage sampleBoot 8 = Some (Inr
     [\<lparr> name = [0x65], isDir = False, size_e = 0, firstCluster = 0 \<rparr>,
      \<lparr> name = [0x62], isDir = False, size_e = 100, firstCluster = 14 \<rparr>])"
  by code_simp

lemma sample_data:
  "readChain sampleImage sampleBoot 14 (Some 20) = Some (Inr (take 20 sampleData))"
  "readChain sampleImage sampleBoot 14 (Some 100) = Some (Inr sampleData)"
  "readChain sampleImage sampleBoot 14 None = Some (Inr sampleData)"
  by code_simp+

lemma sample_paths:
  "normalizePath [slash, 0x61] = [[0x61]]"
  "normalizePath [slash, 0x64, slash, 0x62] = [[0x64], [0x62]]"
  "normalizePath [slash, 0x64, slash, 0x65] = [[0x64], [0x65]]"
  by code_simp+

text \<open>
  C3, as the code has it. For a path that resolves to a file, \<^verbatim>\<open>readFile\<close> is the
  chain read of the entry's first cluster with the entry's size as the limit. What it
  returns is never longer than the size; and when the chain read without a limit
  returns, it is the first \<open>size\<close> bytes of that: exactly \<open>size\<close> bytes when the
  clusters of the chain, as far as the image holds them, have that many, and all of
  them otherwise.
\<close>

theorem readFile_length:
  assumes "resolvesTo r (rootDirCluster (boot r)) (normalizePath p) e"
  shows "readFile r p =
           bindR (readChain (buf r) (boot r) (firstCluster e) (Some (size_e e)))
             (\<lambda>content. Some (Inr (Some content)))
    \<and> (\<forall>content. readFile r p = Some (Inr (Some content)) \<longrightarrow> int (length content) \<le> size_e e)
    \<and> (\<forall>whole. readChain (buf r) (boot r) (firstCluster e) None = Some (Inr whole) \<longrightarrow>
          readFile r p = Some (Inr (Some (take (nat (size_e e)) whole))))"
proof -
  have eq: "readFile r p =
           bindR (readChain (buf r) (boot r) (firstCluster e) (Some (size_e e)))
             (\<lambda>content. Some (Inr (Some content)))"
    unfolding readFile_def using assms by (rule readFile_from_resolved)
  have nonneg: "0 \<le> size_e e"
    using assms by (rule resolvesTo_size_nonneg)
  have "int (length content) \<le> size_e e" if "readFile r p = Some (Inr (Some content))" for content
  proof -
    from that eq have "readChain (buf r) (boot r) (firstCluster e) (Some (size_e e)) = Some (Inr content)"
      by (auto simp: bindR_def split: option.splits sum.splits)
    from readChain_limit_le[OF this] nonneg show ?thesis by simp
  qed
  moreover have "readFile r p = Some (Inr (Some (take (nat (size_e e)) whole)))"
    if "readChain (buf r) (boot r) (firstCluster e) None = Some (Inr whole)" for whole
    using readChain_limit_take[OF that, of "size_e e"] eq by (simp add: bindR_def)
  ultimately show ?thesis using eq by blast
qed

theorem readFile_length_witness:
  "resolvesTo sampleReader (rootDirCluster (boot sampleReader)) (normalizePath [slash, 0x61])
     \<lparr> name = [0x61], isDir = False, size_e = 20, firstCluster = 14 \<rparr>
   \<and> readFile sampleReader [slash, 0x61] = Some (Inr (Some (take 20 sampleData)))
   \<and> int (length (take 20 sampleData)) = 20"
proof -
  have h: "resolvesTo sampleReader (rootDirCluster (boot sampleReader)) (normalizePath [slash, 0x61])
     \<lparr> name = [0x61], isDir = False, size_e = 20, firstCluster = 14 \<rparr>"
    by (simp add: sample_fields sample_paths sample_root)
  have len: "length sampleData = 32"
    by (simp add: sampleData_def)
  from readFile_length[OF h]
  have "\<forall>whole. readChain (buf sampleReader) (boot sampleReader)
          (firstCluster \<lparr> name = [0x61], isDir = False, size_e = 20, firstCluster = 14 \<rparr>) None
            = Some (Inr whole) \<longrightarrow>
        readFile sampleReader [slash, 0x61] = Some (Inr (Some (take (nat (size_e
          \<lparr> name = [0x61], isDir = False, size_e = 20, firstCluster = 14 \<rparr>)) whole)))"
    by blast
  with sample_data(3)
  have "readFile sampleReader [slash, 0x61] = Some (Inr (Some (take 20 sampleData)))"
    by (simp add: sample_fields)
  with h len show ?thesis by simp
qed

text \<open>
  C3, as stated, fails: in the sample image the file \<^verbatim>\<open>/d/b\<close> declares 100 bytes and
  its chain is the single cluster 14, so \<^verbatim>\<open>readFile\<close> returns 32 bytes.
\<close>

theorem readFile_shorter_than_size:
  "resolvesTo sampleReader (rootDirCluster (boot sampleReader))
     (normalizePath [slash, 0x64, slash, 0x62])
     \<lparr> name = [0x62], isDir = False, size_e = 100, firstCluster = 14 \<rparr>
   \<and> readFile sampleReader [slash, 0x64, slash, 0x62] = Some (Inr (Some sampleData))
   \<and> length sampleData = 32"
  by (simp add: readFile_def sample_fields sample_paths sample_root sample_dirD sample_data
      bindR_def sampleData_def)

text \<open>
  C10. For a path that resolves to a file whose size is 0, \<^verbatim>\<open>readFile\<close> returns the
  empty array whatever the first cluster is: with nothing left of the limit the loop
  ends before it collects a byte or reads the FAT.
\<close>

theorem readFile_empty:
  assumes "resolvesTo r (rootDirCluster (boot r)) (normalizePath p) e" and "size_e e = 0"
  shows "readFile r p = Some (Inr (Some []))"
proof -
  have "readChain (buf r) (boot r) (firstCluster e) (Some 0) = Some (Inr [])"
    by (subst readChain_def, subst chainLoop.simps) (simp add: Let_def)
  then show ?thesis
    unfolding readFile_def readFile_from_resolved[OF assms(1)] using assms(2)
    by (simp add: bindR_def)
qed

theorem readFile_empty_witness:
  "resolvesTo sampleReader (rootDirCluster (boot sampleReader))
     (normalizePath [slash, 0x64, slash, 0x65])
     \<lparr> name = [0x65], isDir = False, size_e = 0, firstCluster = 0 \<rparr>
   \<and> readFile sampleReader [slash, 0x64, slash, 0x65] = Some (Inr (Some []))"
proof -
  have h: "resolvesTo sampleReader (rootDirCluster (boot sampleReader))
     (normalizePath [slash, 0x64, slash, 0x65])
     \<lparr> name = [0x65], isDir = False, size_e = 0, firstCluster = 0 \<rparr>"
    by (simp add: sample_fields sample_paths sample_root sample_dirD)
  show ?thesis
    using h readFile_empty[OF h] by simp
qed

text \<open>
  C9. For a path without segments, \<^verbatim>\<open>exists\<close> is true for every reader: the loop over
  the segments does not run, and no directory is read.
\<close>

theorem exists_root:
  "normalizePath p = [] \<Longrightarrow> exists r p = Some (Inr True)"
  by (simp add: exists_def)

theorem exists_root_witness:
  "newExfatReader badRootImage = Inr badRootReader
   \<and> normalizePath [slash, slash, slash] = []
   \<and> exists badRootReader [slash, slash, slash] = Some (Inr True)"
proof -
  have h: "normalizePath [slash, slash, slash] = []"
    by code_simp
  have "newExfatReader badRootImage = Inr badRootReader"
    by code_simp
  with h exists_root[OF h, of badRootReader] show ?thesis by simp
qed

section \<open>Slashes\<close>

lemma sameResults_normalizePath: "normalizePath p = normalizePath q \<Longrightarrow> sameResults r p q"
  by (simp add: sameResults_def list_def exists_def readFile_def walk_def)

text \<open>
  C7. \<^verbatim>\<open>list\<close>, \<^verbatim>\<open>exists\<close>, \<^verbatim>\<open>readFile\<close> and \<^verbatim>\<open>walk\<close> depend on the path only
  through its segments that are not empty: two paths with the same segments give the
  same results, and a slash added in front, at the end, or next to another slash changes
  no result.
\<close>

theorem slashes_are_ignored:
  "(normalizePath p = normalizePath q \<longrightarrow> sameResults r p q)
   \<and> sameResults r (slash # p) p
   \<and> sameResults r (p @ [slash]) p
   \<and> sameResults r (a @ slash # slash # b) (a @ slash # b)"
  by (simp add: sameResults_normalizePath normalizePath_leading normalizePath_trailing
      normalizePath_duplicate)

theorem slashes_are_ignored_witness:
  "normalizePath [slash, slash, 0x64, slash, slash, 0x62, slash] = normalizePath [0x64, slash, 0x62]
   \<and> sameResults sampleReader [slash, slash, 0x64, slash, slash, 0x62, slash] [0x64, slash, 0x62]"
proof -
  have h: "normalizePath [slash, slash, 0x64, slash, slash, 0x62, slash]
      = normalizePath [0x64, slash, 0x62]"
    by code_simp
  show ?thesis
    using h slashes_are_ignored[of "[slash, slash, 0x64, slash, slash, 0x62, slash]"
        "[0x64, slash, 0x62]" sampleReader]
    by simp
qed

section \<open>Decoding a directory\<close>

lemma readU32_in:
  "j + 32 \<le> length data \<Longrightarrow> readU32 data (int j + 0x14) = Inr (le32 data (j + 0x14))"
  by (simp add: readU32_def getUint32_def nat_add_distrib)

lemma readU64_in:
  "j + 32 \<le> length data \<Longrightarrow>
   readU64 data (int j + 0x18)
     = Inr (toDouble (le32 data (j + 0x1c) * 2 ^ 32 + le32 data (j + 0x18)))"
  by (simp add: readU64_def getUint32_def bindE_def nat_add_distrib add.commute)

lemma subarray_name:
  "j + 32 \<le> length data \<Longrightarrow> subarray data (int j + 2) (int j + 32) = take 30 (drop (j + 2) data)"
  by (simp add: subarray_def Let_def nat_add_distrib min_def)

lemma secondaries_run:
  assumes "n = min (Suc sc - consumed) ((length data - j) div 32)"
  shows "secondaries data sc consumed j nm fc sz =
    (case recovered data (map (\<lambda>m. j + 32 * m) [0..<n]) (nm, fc, sz) of
       (nm', fc', sz') \<Rightarrow> Inr (nm', fc', sz', j + 32 * n))"
  using assms
proof (induction n arbitrary: consumed j nm fc sz)
  case 0
  then have "\<not> (consumed \<le> sc \<and> j + 32 \<le> length data)"
    by (auto simp: min_def split: if_splits)
  then show ?case
    by (subst secondaries.simps) auto
next
  case (Suc k)
  from Suc.prems have guard: "consumed \<le> sc" "j + 32 \<le> length data"
    by (auto simp: min_def split: if_splits) 
  have "(length data - j) div 32 = Suc ((length data - (j + 32)) div 32)"
    using guard(2) le_div_geq[of 32 "length data - j"] by simp
  with Suc.prems guard have k: "k = min (Suc sc - (consumed + 1)) ((length data - (j + 32)) div 32)"
    by (simp add: min_def split: if_splits) arith+
  have slots: "map (\<lambda>m. j + 32 * m) [0..<Suc k] = j # map (\<lambda>m. (j + 32) + 32 * m) [0..<k]"
    by (simp add: upt_conv_Cons map_Suc_upt[symmetric] del: upt_Suc)
  have IH: "secondaries data sc (Suc consumed) (j + 32) nm' fc' sz' =
      (case recovered data (map (\<lambda>m. j + 32 + 32 * m) [0..<k]) (nm', fc', sz') of
         (nm'', fc'', sz'') \<Rightarrow> Inr (nm'', fc'', sz'', j + (32 + 32 * k)))" for nm' fc' sz'
    using Suc.IH[OF k, of nm' fc' sz'] by (simp add: add.assoc)
  show ?case
    using guard
    by (subst secondaries.simps, subst slots)
      (simp add: readU32_in readU64_in subarray_name IH del: upt_Suc)
qed


text \<open>
  C6. A primary entry (0x85) at a scan position \<open>i\<close> declares more secondary entries
  than the directory bytes hold after it. The decoder consumes the secondary entries
  that are whole inside the bytes, stops there, and emits one record: the name, first
  cluster and size those entries gave (an empty name and 0 where they gave nothing),
  and the directory flag of the primary entry. Nothing is scanned after it.
\<close>

theorem truncated_entry_set:
  assumes "i + 32 \<le> length data" and "data ! i = 0x85"
    and "length data < i + 32 * (unat (data ! (i + 1)) + 1)"
  shows "scanEntries data i res =
    (case recovered data (inBoundsSlots data i) ([], 0, 0) of
       (nm, fc, sz) \<Rightarrow>
         Inr (res @ [\<lparr> name = stripNul nm, isDir = (data ! (i + 4) AND 0x10 \<noteq> 0),
                        size_e = sz, firstCluster = fc \<rparr>]))"
proof -
  let ?sc = "unat (data ! (i + 1))"
  let ?n = "(length data - i) div 32 - 1"
  have div: "(length data - i) div 32 = Suc ((length data - (i + 32)) div 32)"
    using assms(1) le_div_geq[of 32 "length data - i"] by simp
  have "(length data - i) div 32 < ?sc + 1"
    using assms(3) by (simp add: div_less_iff_less_mult algebra_simps less_diff_conv2 assms(1))
  with div have n: "?n = min (Suc ?sc - 1) ((length data - (i + 32)) div 32)"
    by (simp add: min_def)
  have slots: "map (\<lambda>m. i + 32 + 32 * m) [0..<?n] = inBoundsSlots data i"
    by (simp add: inBoundsSlots_def add.assoc)
  have stop: "\<not> (i + 32 + 32 * ?n) + 32 \<le> length data"
  proof -
    have "length data - i < 32 * Suc ((length data - i) div 32)"
      using dividend_less_times_div[of 32 "length data - i"] by simp
    with div show ?thesis by simp
  qed
  obtain nm fc sz where rec: "recovered data (inBoundsSlots data i) ([], 0, 0) = (nm, fc, sz)"
    by (cases "recovered data (inBoundsSlots data i) ([], 0, 0)") auto
  have "secondaries data ?sc 1 (i + 32) [] 0 0 = Inr (nm, fc, sz, i + 32 + 32 * ?n)"
    using secondaries_run[OF n, of "[]" 0 0] unfolding slots rec by simp
  then have sec: "secondaries data (unat (data ! Suc i)) (Suc 0) (i + 32) [] 0 0
      = Inr (nm, fc, sz, i + 32 + 32 * ?n)"
    by simp
  have "scanEntries data (i + 32 + 32 * ?n) res' = Inr res'" for res'
    using stop by (subst scanEntries.simps) simp
  then show ?thesis
    using assms(1,2) by (subst scanEntries.simps) (simp add: sec rec)
qed

theorem truncated_entry_set_witness:
  "scanEntries cutDirectory 0 [] =
     Inr [\<lparr> name = [], isDir = False, size_e = 9007199254740992, firstCluster = 9 \<rparr>]
   \<and> inBoundsSlots cutDirectory 0 = [32]
   \<and> unat (cutDirectory ! 1) = 2"
proof -
  have h: "0 + 32 \<le> length cutDirectory" "cutDirectory ! 0 = 0x85"
    "length cutDirectory < 0 + 32 * (unat (cutDirectory ! (0 + 1)) + 1)"
    by code_simp+
  have v: "recovered cutDirectory (inBoundsSlots cutDirectory 0) ([], 0, 0)
      = ([], 9, 9007199254740992)"
    "(cutDirectory ! (0 + 4) AND 0x10 \<noteq> 0) = False" "stripNul [] = []"
    "inBoundsSlots cutDirectory 0 = [32]" "unat (cutDirectory ! Suc 0) = 2"
    by code_simp+
  show ?thesis
    using truncated_entry_set[OF h, of "[]"] unfolding v(1,2) by (simp add: v(3,4,5))
qed

section \<open>Walking the tree\<close>

lemma preorder_subtree:
  "s \<in> set (subtrees t) \<Longrightarrow> \<exists>pre post. preorder t = pre @ preorder s @ post"
proof (induction t)
  case (Visited x ts)
  show ?case
  proof (cases "s = Visited x ts")
    case True
    then show ?thesis by (intro exI[of _ "[]"]) simp
  next
    case False
    with Visited.prems obtain u where u: "u \<in> set ts" "s \<in> set (subtrees u)"
      by auto
    from Visited.IH[OF u] obtain pre post where inner: "preorder u = pre @ preorder s @ post"
      by blast
    from u(1) obtain us vs where "ts = us @ u # vs"
      by (auto simp: in_set_conv_decomp)
    then have "preorder (Visited x ts)
        = (x # concat (map preorder us) @ pre) @ preorder s @ (post @ concat (map preorder vs))"
      by (simp add: inner)
    then show ?thesis by blast
  qed
qed

lemma preorder_forest:
  assumes "t \<in> set (concat (map subtrees ts))"
  shows "\<exists>pre post. concat (map preorder ts) = pre @ preorder t @ post"
proof -
  from assms obtain u where u: "u \<in> set ts" "t \<in> set (subtrees u)"
    by auto
  from preorder_subtree[OF u(2)] obtain pre post where inner: "preorder u = pre @ preorder t @ post"
    by blast
  from u(1) obtain us vs where "ts = us @ u # vs"
    by (auto simp: in_set_conv_decomp)
  then have "concat (map preorder ts)
      = (concat (map preorder us) @ pre) @ preorder t @ (post @ concat (map preorder vs))"
    by (simp add: inner)
  then show ?thesis by blast
qed

lemma visitEntries_forest:
  assumes "visitEntries r currentPath entries result = Some (Inr out)"
  shows "\<exists>ts. dirForest r currentPath entries ts \<and> out = result @ concat (map preorder ts)"
proof -
  have "\<forall>out. y = Inr out \<longrightarrow>
      (\<exists>ts. dirForest r currentPath entries ts \<and> out = result @ concat (map preorder ts))"
    if "visitEntries r currentPath entries result = Some y" for y
  proof (rule visitEntries.raw_induct[where P = "\<lambda>r currentPath entries result y.
      \<forall>out. y = Inr out \<longrightarrow>
        (\<exists>ts. dirForest r currentPath entries ts \<and> out = result @ concat (map preorder ts))",
      OF _ that], goal_cases)
    case (1 loop r currentPath entries result y)
    show ?case
    proof (intro allI impI)
      fix out
      assume y: "y = Inr out"
      show "\<exists>ts. dirForest r currentPath entries ts \<and> out = result @ concat (map preorder ts)"
      proof (cases entries)
        case Nil
        with 1(2) y have "out = result" by simp
        with Nil show ?thesis by (auto intro: dirForest.forest_none)
      next
        case (Cons e es)
        show ?thesis
        proof (cases "isDir e")
          case False
          with 1(2) Cons have "loop r currentPath es (result @ [fileItem currentPath e]) = Some y"
            by simp
          from 1(1)[OF this] y obtain ts where
            "dirForest r currentPath es ts"
            "out = (result @ [fileItem currentPath e]) @ concat (map preorder ts)"
            by blast
          with False Cons show ?thesis
            by (intro exI[of _ "Visited (fileItem currentPath e) [] # ts"])
              (auto intro: dirForest.forest_file)
        next
          case True
          with 1(2) Cons y obtain sub where
            sub: "readDirectory (buf r) (boot r) (firstCluster e) = Some (Inr sub)"
            and bnd: "Option.bind
                (loop r (childPath currentPath e) sub (result @ [dirItem currentPath e]))
                (\<lambda>visited. case visited of
                     Inl err \<Rightarrow> Some (Inl err)
                   | Inr result' \<Rightarrow> loop r currentPath es result') = Some y"
            by (auto split: option.splits sum.splits)
          from bnd obtain v where
            v: "loop r (childPath currentPath e) sub (result @ [dirItem currentPath e]) = Some v"
            and after: "(case v of Inl err \<Rightarrow> Some (Inl err)
                   | Inr result' \<Rightarrow> loop r currentPath es result') = Some y"
            by (auto simp: bind_eq_Some_conv)
          from after y obtain result' where v': "v = Inr result'"
            by (cases v) auto
          from v v' have inner:
            "loop r (childPath currentPath e) sub (result @ [dirItem currentPath e])
                = Some (Inr result')"
            by simp
          from after v' have rest: "loop r currentPath es result' = Some y"
            by simp
          from 1(1)[OF inner] obtain cs where
            cs: "dirForest r (childPath currentPath e) sub cs"
              "result' = (result @ [dirItem currentPath e]) @ concat (map preorder cs)"
            by blast
          from 1(1)[OF rest] y obtain ts where
            ts: "dirForest r currentPath es ts" "out = result' @ concat (map preorder ts)"
            by blast
          from True sub cs(1) ts(1) have
            "dirForest r currentPath (e # es) (Visited (dirItem currentPath e) cs # ts)"
            by (rule dirForest.forest_dir)
          with Cons cs(2) ts(2) show ?thesis
            by (intro exI[of _ "Visited (dirItem currentPath e) cs # ts"]) simp
        qed
      qed
    qed
  qed
  from this[OF assms] show ?thesis by simp
qed

text \<open>
  C5. What \<^verbatim>\<open>walk\<close> returns is the pre-order of the directory tree under the path:
  for every entry visited, its own item is followed at once by the items of all its
  descendants, so a directory stands strictly before everything below it.
\<close>

theorem walk_is_preorder:
  assumes "walk r p = Some (Inr out)"
  shows "\<exists>ts. walkForest r p ts \<and> out = concat (map preorder ts)
    \<and> (\<forall>x cs. Visited x cs \<in> set (concat (map subtrees ts)) \<longrightarrow>
          (\<exists>pre post. out = pre @ [x] @ concat (map preorder cs) @ post))"
proof -
  let ?base = "if normalizePath p \<noteq> [] then [slash] @ join (normalizePath p) else [slash]"
  from assms obtain resolved where
    res: "walk_from r (normalizePath p) (rootDirCluster (boot r)) = Some (Inr resolved)"
    by (auto simp: walk_def Let_def bindR_def split: option.splits sum.splits)
  have "\<exists>ts. walkForest r p ts \<and> out = concat (map preorder ts)"
  proof (cases resolved)
    case None
    with assms res have "out = []"
      by (simp add: walk_def Let_def bindR_def)
    with None res show ?thesis
      by (simp add: walkForest_def)
  next
    case (Some cluster)
    with assms res obtain entries where
      entries: "readDirectory (buf r) (boot r) cluster = Some (Inr entries)"
      and v: "visitEntries r ?base entries [] = Some (Inr out)"
      by (auto simp: walk_def visit_def Let_def bindR_def split: option.splits sum.splits)
    from visitEntries_forest[OF v] obtain ts where
      "dirForest r ?base entries ts" "out = concat (map preorder ts)"
      by auto
    with Some res entries show ?thesis
      by (auto simp: walkForest_def)
  qed
  then obtain ts where ts: "walkForest r p ts" "out = concat (map preorder ts)"
    by blast
  have "\<exists>pre post. out = pre @ [x] @ concat (map preorder cs) @ post"
    if "Visited x cs \<in> set (concat (map subtrees ts))" for x cs
    using preorder_forest[OF that] ts(2) by simp
  with ts show ?thesis by blast
qed

lemma sample_walk: "walk sampleReader [slash] = Some (Inr sampleWalk)"
proof -
  have np: "normalizePath [slash] = []"
    by code_simp
  show ?thesis
    by (simp add: walk_def visit_def np sample_fields sample_root sample_dirD bindR_def
        visitEntries.simps childPath_def dirItem_def fileItem_def sampleWalk_def)
qed

theorem walk_is_preorder_witness:
  "walk sampleReader [slash] = Some (Inr sampleWalk)
   \<and> (\<exists>ts. walkForest sampleReader [slash] ts \<and> sampleWalk = concat (map preorder ts)
        \<and> (\<forall>x cs. Visited x cs \<in> set (concat (map subtrees ts)) \<longrightarrow>
              (\<exists>pre post. sampleWalk = pre @ [x] @ concat (map preorder cs) @ post)))"
  using sample_walk walk_is_preorder[OF sample_walk] by blast

section \<open>The image is only read\<close>

lemma length_contents: "validView h a \<Longrightarrow> length (contents h a) = byteLength a"
  by (auto simp: validView_def contents_def)

lemma take_drop_take: "m + n \<le> L \<Longrightarrow> take n (drop m (take L xs)) = take n (drop m xs)"
  by (simp add: drop_take)

lemma subarrayM_valid: "validView h a \<Longrightarrow> validView h (subarrayM a x y)"
  by (auto simp: validView_def subarrayM_def Let_def)

lemma contents_subarrayM:
  assumes "validView h a"
  shows "contents h (subarrayM a x y) = subarray (contents h a) x y"
proof -
  let ?len = "int (byteLength a)"
  let ?b = "if x < 0 then max (?len + x) 0 else min x ?len"
  let ?e = "if y < 0 then max (?len + y) 0 else min y ?len"
  have "nat ?b + nat (?e - ?b) \<le> byteLength a"
    by auto
  then have "take (nat (?e - ?b)) (drop (nat ?b) (take (byteLength a) (drop (byteOffset a) (h ! buffer a))))
      = take (nat (?e - ?b)) (drop (nat ?b) (drop (byteOffset a) (h ! buffer a)))"
    by (rule take_drop_take)
  then show ?thesis
    using length_contents[OF assms]
    by (simp add: subarrayM_def subarray_def Let_def contents_def add.commute)
qed

lemma byteLength_subarrayM:
  "validView h a \<Longrightarrow> byteLength (subarrayM a x y) = length (subarray (contents h a) x y)"
  using length_contents[OF subarrayM_valid, of h a x y] contents_subarrayM[of h a x y] by simp


lemma chainLoopM_refines:
  assumes "chainLoopM h b bt c remaining vs = Some y"
    and "validView h b" and "list_all (validView h) vs"
  shows "chainLoop (contents h b) bt c remaining (map (contents h) vs)
           = Some (map_sum id (map (contents h)) y)
    \<and> (\<forall>out. y = Inr out \<longrightarrow> list_all (validView h) out)"
proof -
  have "validView h b \<longrightarrow> list_all (validView h) vs \<longrightarrow>
      chainLoop (contents h b) bt c remaining (map (contents h) vs)
           = Some (map_sum id (map (contents h)) y)
      \<and> (\<forall>out. y = Inr out \<longrightarrow> list_all (validView h) out)"
  proof (rule chainLoopM.raw_induct[where P = "\<lambda>h b bt c remaining vs y.
      validView h b \<longrightarrow> list_all (validView h) vs \<longrightarrow>
      chainLoop (contents h b) bt c remaining (map (contents h) vs)
           = Some (map_sum id (map (contents h)) y)
      \<and> (\<forall>out. y = Inr out \<longrightarrow> list_all (validView h) out)", OF _ assms(1)], goal_cases)
    case (1 loop h b bt c remaining vs y)
    show ?case
    proof (intro impI)
      assume vb: "validView h b" and vvs: "list_all (validView h) vs"
      let ?goal = "chainLoop (contents h b) bt c remaining (map (contents h) vs)
           = Some (map_sum id (map (contents h)) y)
        \<and> (\<forall>out. y = Inr out \<longrightarrow> list_all (validView h) out)"
      show ?goal
      proof (cases "2 \<le> c \<and> c < 0x0fffffff")
        case False
        with 1(2) have "y = Inr vs" by auto
        with False vvs show ?thesis
          by (subst chainLoop.simps) auto
      next
        case inrange: True
        let ?sv = "subarrayM b (clusterOffset bt c) (clusterOffset bt c + clusterSize bt)"
        let ?s = "subarray (contents h b) (clusterOffset bt c) (clusterOffset bt c + clusterSize bt)"
        have sv: "validView h ?sv" "contents h ?sv = ?s" "byteLength ?sv = length ?s"
          using vb by (simp_all add: subarrayM_valid contents_subarrayM byteLength_subarrayM)
        have cv: "validView h (subarrayM ?sv 0 m)" "contents h (subarrayM ?sv 0 m) = subarray ?s 0 m"
          for m
          using sv(1) by (simp_all add: subarrayM_valid contents_subarrayM sv(2))
        show ?thesis
        proof (cases "\<exists>rem. remaining = Some rem \<and> rem \<le> 0")
          case True
          with 1(2) inrange have "y = Inr vs" by (auto simp: Let_def)
          with True inrange vvs show ?thesis
            by (subst chainLoop.simps) (auto simp: Let_def)
        next
          case False
          define v' where "v' = (case remaining of None \<Rightarrow> ?sv
              | Some rem \<Rightarrow> subarrayM ?sv 0 (min (int (byteLength ?sv)) rem))"
          define rem' where "rem' = (case remaining of None \<Rightarrow> None
              | Some rem \<Rightarrow> Some (rem - min (int (byteLength ?sv)) rem))"
          have v': "validView h v'"
            "contents h v' = (case remaining of None \<Rightarrow> ?s
              | Some rem \<Rightarrow> subarray ?s 0 (min (int (length ?s)) rem))"
            "rem' = (case remaining of None \<Rightarrow> None
              | Some rem \<Rightarrow> Some (rem - min (int (length ?s)) rem))"
            by (auto simp: v'_def rem'_def sv cv split: option.splits)
          from 1(2) inrange False have body:
            "(case readFATNext (contents h b) bt c of
                Inl e \<Rightarrow> Some (Inl e)
              | Inr nxt \<Rightarrow> if isEndOfChain nxt then Some (Inr (vs @ [v']))
                  else loop h b bt nxt rem' (vs @ [v'])) = Some y"
            by (auto simp: Let_def v'_def rem'_def split: option.splits sum.splits)
          have pure: "chainLoop (contents h b) bt c remaining (map (contents h) vs) =
              (case readFATNext (contents h b) bt c of
                Inl e \<Rightarrow> Some (Inl e)
              | Inr nxt \<Rightarrow> if isEndOfChain nxt then Some (Inr (map (contents h) (vs @ [v'])))
                  else chainLoop (contents h b) bt nxt rem' (map (contents h) (vs @ [v'])))"
            using inrange False
            by (subst chainLoop.simps) (auto simp: Let_def v' split: option.splits sum.splits)
          have vall: "list_all (validView h) (vs @ [v'])"
            using vvs v'(1) by simp
          show ?thesis
          proof (cases "readFATNext (contents h b) bt c")
            case (Inl e)
            with body pure show ?thesis by auto
          next
            case (Inr nxt)
            show ?thesis
            proof (cases "isEndOfChain nxt")
              case True
              with body pure Inr vall show ?thesis by auto
            next
              case False
              with body Inr have "loop h b bt nxt rem' (vs @ [v']) = Some y" by simp
              from 1(1)[OF this] vb vall pure Inr False show ?thesis by simp
            qed
          qed
        qed
      qed
    qed
  qed
  with assms(2,3) show ?thesis by simp
qed


lemma chainLoopM_returns:
  assumes "chainLoop (contents h b) bt c remaining (map (contents h) vs) = Some y"
    and "validView h b"
  shows "\<exists>y'. chainLoopM h b bt c remaining vs = Some y'"
proof -
  have "\<forall>vs. img = contents h b \<longrightarrow> chunks = map (contents h) vs \<longrightarrow>
      (\<exists>y'. chainLoopM h b bt c remaining vs = Some y')"
    if "chainLoop img bt c remaining chunks = Some y" for img chunks
  proof (rule chainLoop.raw_induct[where P = "\<lambda>img bt c remaining chunks y.
      \<forall>vs. img = contents h b \<longrightarrow> chunks = map (contents h) vs \<longrightarrow>
      (\<exists>y'. chainLoopM h b bt c remaining vs = Some y')", OF _ that], goal_cases)
    case (1 loop img bt c remaining chunks y)
    show ?case
    proof (intro allI impI)
      fix vs
      assume img: "img = contents h b" and chunks: "chunks = map (contents h) vs"
      show "\<exists>y'. chainLoopM h b bt c remaining vs = Some y'"
      proof (cases "2 \<le> c \<and> c < 0x0fffffff")
        case False
        then show ?thesis by (subst chainLoopM.simps) auto
      next
        case inrange: True
        let ?sv = "subarrayM b (clusterOffset bt c) (clusterOffset bt c + clusterSize bt)"
        let ?s = "subarray (contents h b) (clusterOffset bt c) (clusterOffset bt c + clusterSize bt)"
        have sv: "validView h ?sv" "contents h ?sv = ?s" "byteLength ?sv = length ?s"
          using assms(2) by (simp_all add: subarrayM_valid contents_subarrayM byteLength_subarrayM)
        have cv: "contents h (subarrayM ?sv 0 m) = subarray ?s 0 m" for m
          using sv(1) by (simp add: contents_subarrayM sv(2))
        show ?thesis
        proof (cases "\<exists>rem. remaining = Some rem \<and> rem \<le> 0")
          case True
          with inrange show ?thesis
            by (subst chainLoopM.simps) (auto simp: Let_def)
        next
          case False
          define v' where "v' = (case remaining of None \<Rightarrow> ?sv
              | Some rem \<Rightarrow> subarrayM ?sv 0 (min (int (byteLength ?sv)) rem))"
          define rem' where "rem' = (case remaining of None \<Rightarrow> None
              | Some rem \<Rightarrow> Some (rem - min (int (byteLength ?sv)) rem))"
          have v': "contents h v' = (case remaining of None \<Rightarrow> ?s
              | Some rem \<Rightarrow> subarray ?s 0 (min (int (length ?s)) rem))"
            "rem' = (case remaining of None \<Rightarrow> None
              | Some rem \<Rightarrow> Some (rem - min (int (length ?s)) rem))"
            by (auto simp: v'_def rem'_def sv cv split: option.splits)
          have heap: "chainLoopM h b bt c remaining vs =
              (case readFATNext (contents h b) bt c of
                Inl e \<Rightarrow> Some (Inl e)
              | Inr nxt \<Rightarrow> if isEndOfChain nxt then Some (Inr (vs @ [v']))
                  else chainLoopM h b bt nxt rem' (vs @ [v']))"
            using inrange False
            by (subst chainLoopM.simps)
              (auto simp: Let_def v'_def rem'_def split: option.splits sum.splits)
          from 1(2) inrange False img chunks have body:
            "(case readFATNext (contents h b) bt c of
                Inl e \<Rightarrow> Some (Inl e)
              | Inr nxt \<Rightarrow> if isEndOfChain nxt then Some (Inr (map (contents h) (vs @ [v'])))
                  else loop (contents h b) bt nxt rem' (map (contents h) (vs @ [v']))) = Some y"
            by (auto simp: Let_def v' split: option.splits sum.splits)
          show ?thesis
          proof (cases "readFATNext (contents h b) bt c")
            case (Inl e)
            with heap show ?thesis by simp
          next
            case (Inr nxt)
            show ?thesis
            proof (cases "isEndOfChain nxt")
              case True
              with heap Inr show ?thesis by simp
            next
              case False
              with body Inr have
                "loop (contents h b) bt nxt rem' (map (contents h) (vs @ [v'])) = Some y"
                by simp
              from 1(1)[OF this] heap Inr False show ?thesis by simp
            qed
          qed
        qed
      qed
    qed
  qed
  from this[OF assms(1)] show ?thesis by simp
qed

lemma unchanged_refl: "unchanged h h"
  by (simp add: unchanged_def)

lemma unchanged_append: "unchanged h (h @ ext)"
  by (simp add: unchanged_def)

lemma unchanged_trans: "unchanged h h' \<Longrightarrow> unchanged h' h'' \<Longrightarrow> unchanged h h''"
  by (metis append_take_drop_id take_all_iff take_append unchanged_def
      length_take min.cobounded2 nat_le_linear take_take min_def)

lemma unchanged_nth: "unchanged h h' \<Longrightarrow> a < length h \<Longrightarrow> h' ! a = h ! a"
  by (metis nth_take unchanged_def)

lemma unchanged_length: "unchanged h h' \<Longrightarrow> length h \<le> length h'"
  by (metis length_take min.cobounded2 unchanged_def min.commute)

lemma unchanged_view:
  assumes "unchanged h h'" "validView h a"
  shows "validView h' a" "contents h' a = contents h a"
  using assms unchanged_nth[OF assms(1), of "buffer a"] unchanged_length[OF assms(1)]
  by (auto simp: validView_def contents_def)


lemma copyChunks_fills:
  assumes "list_all (validView h) chunks"
    and "buffer out = length h" "byteOffset out = 0"
    and "byteLength out = length pre + n"
    and "sum_list (map byteLength chunks) \<le> n"
  shows "copyChunks (h @ [pre @ replicate n 0]) out chunks (length pre) =
    (Inr (), h @ [pre @ concat (map (contents h) chunks)
       @ replicate (n - sum_list (map byteLength chunks)) 0])"
  using assms
proof (induction chunks arbitrary: pre n)
  case Nil
  then show ?case by simp
next
  case (Cons s ss)
  let ?h1 = "h @ [pre @ replicate n 0]"
  from Cons.prems have s: "validView h s" and len: "byteLength s \<le> n"
    by auto
  have cs: "contents ?h1 s = contents h s"
    using s by (simp add: contents_def validView_def nth_append)
  have ls: "length (contents h s) = byteLength s"
    using s by (rule length_contents)
  have set: "setM ?h1 out s (length pre) =
      Inr (h @ [(pre @ contents h s) @ replicate (n - byteLength s) 0])"
    using Cons.prems(2,3,4) len
    by (simp add: setM_def cs ls)
  have "copyChunks (h @ [(pre @ contents h s) @ replicate (n - byteLength s) 0]) out ss
        (length (pre @ contents h s))
      = (Inr (), h @ [(pre @ contents h s) @ concat (map (contents h) ss)
           @ replicate (n - byteLength s - sum_list (map byteLength ss)) 0])"
    using Cons.prems len by (intro Cons.IH) (auto simp: ls)
  then show ?case
    by (simp add: set ls)
qed

lemma readChainM_refines:
  assumes "validView h b"
  shows "case readChainM h b bt c lim of
      None \<Rightarrow> readChain (contents h b) bt c lim = None
    | Some (Inl e, h') \<Rightarrow> h' = h \<and> readChain (contents h b) bt c lim = Some (Inl e)
    | Some (Inr v, h') \<Rightarrow> unchanged h h' \<and> validView h' v
        \<and> readChain (contents h b) bt c lim = Some (Inr (contents h' v))"
proof (cases "chainLoopM h b bt c lim []")
  case None
  have "chainLoop (contents h b) bt c lim [] = None"
  proof (rule ccontr)
    assume "chainLoop (contents h b) bt c lim [] \<noteq> None"
    then obtain y where "chainLoop (contents h b) bt c lim (map (contents h) []) = Some y"
      by auto
    from chainLoopM_returns[OF this assms] None show False by simp
  qed
  with None show ?thesis
    by (simp add: readChainM_def readChain_def)
next
  case (Some y)
  from chainLoopM_refines[OF Some assms] have
    pure: "chainLoop (contents h b) bt c lim [] = Some (map_sum id (map (contents h)) y)"
    and valid: "\<And>out. y = Inr out \<Longrightarrow> list_all (validView h) out"
    by auto
  show ?thesis
  proof (cases y)
    case (Inl e)
    with Some pure show ?thesis
      by (simp add: readChainM_def readChain_def)
  next
    case (Inr chunks)
    note v = valid[OF Inr]
    show ?thesis
    proof (cases "length chunks = 1")
      case True
      then obtain v1 where one: "chunks = [v1]"
        by (cases chunks) auto
      with v Some pure Inr show ?thesis
        by (simp add: readChainM_def readChain_def unchanged_refl)
    next
      case False
      let ?total = "sum_list (map byteLength chunks)"
      let ?out = "\<lparr> buffer = length h, byteOffset = 0, byteLength = ?total \<rparr>"
      let ?h2 = "h @ [concat (map (contents h) chunks)]"
      have copy: "copyChunks (h @ [replicate ?total 0]) ?out chunks 0 = (Inr (), ?h2)"
        using copyChunks_fills[OF v, of ?out "[]" ?total] by simp
      have len: "length (concat (map (contents h) chunks)) = ?total"
        using v by (induction chunks) (auto simp: length_contents)
      have res: "readChainM h b bt c lim = Some (Inr ?out, ?h2)"
        using Some Inr False by (simp add: readChainM_def newUint8Array_def copy)
      have "validView ?h2 ?out" "contents ?h2 ?out = concat (map (contents h) chunks)"
        using len by (simp_all add: validView_def contents_def)
      moreover have "readChain (contents h b) bt c lim
          = Some (Inr (concat (map (contents h) chunks)))"
        using pure Inr by (simp add: readChain_concat)
      ultimately show ?thesis
        using res by (simp add: unchanged_append)
    qed
  qed
qed


lemma readDirectoryM_refines:
  assumes "validView h b"
  shows "case readDirectoryM h b bt c of
      None \<Rightarrow> readDirectory (contents h b) bt c = None
    | Some (res, h') \<Rightarrow> unchanged h h' \<and> readDirectory (contents h b) bt c = Some res"
  using readChainM_refines[OF assms, of bt c None]
  by (auto simp: readDirectoryM_def readDirectory_def bindM_def bindR_def unchanged_refl
      split: option.splits sum.splits prod.splits)

lemma pureReader_unchanged:
  "unchanged h h' \<Longrightarrow> validView h (bufM r) \<Longrightarrow> pureReader h' r = pureReader h r"
  by (simp add: pureReader_def unchanged_view)

lemma readFile_fromM_refines:
  assumes "validView h (bufM r)"
  shows "observed (readFile_fromM r parts c h) = readFile_from (pureReader h r) parts c
    \<and> (\<forall>x h'. readFile_fromM r parts c h = Some (x, h') \<longrightarrow> unchanged h h')"
  using assms
proof (induction parts arbitrary: c h)
  case Nil
  then show ?case by (simp add: observed_def unchanged_refl)
next
  case (Cons part parts)
  note dir = readDirectoryM_refines[OF Cons.prems, of "bootM r" c]
  show ?case
  proof (cases "readDirectoryM h (bufM r) (bootM r) c")
    case None
    with dir show ?thesis
      by (simp add: bindM_def bindR_def observed_def pureReader_def)
  next
    case (Some a)
    obtain res h1 where a: "a = (res, h1)" by (cases a)
    from dir Some a have u: "unchanged h h1"
      and pure: "readDirectory (contents h (bufM r)) (bootM r) c = Some res"
      by auto
    have v1: "validView h1 (bufM r)" and p1: "pureReader h1 r = pureReader h r"
      using u Cons.prems by (simp_all add: unchanged_view pureReader_unchanged)
    show ?thesis
    proof (cases res)
      case (Inl e)
      with Some a pure u show ?thesis
        by (simp add: bindM_def bindR_def observed_def pureReader_def)
    next
      case (Inr entries)
      show ?thesis
      proof (cases "find (\<lambda>e. name e = part \<and> (if parts \<noteq> [] then isDir e else \<not> isDir e)) entries")
        case None
        with Some a pure u Inr show ?thesis
          by (simp add: bindM_def bindR_def observed_def pureReader_def)
      next
        case found: (Some found)
        show ?thesis
        proof (cases "parts = []")
          case True
          note ch = readChainM_refines[OF v1, of "bootM r" "firstCluster found" "Some (size_e found)"]
          have c1: "contents h1 (bufM r) = contents h (bufM r)"
            using u Cons.prems by (rule unchanged_view)
          from ch c1 u show ?thesis
            using Some a pure Inr found True
            by (auto simp: bindM_def bindR_def observed_def pureReader_def
                split: option.splits sum.splits prod.splits intro: unchanged_trans)
        next
          case False
          from Cons.IH[OF v1, of "firstCluster found"] p1 u show ?thesis
            using Some a pure Inr found False
            by (auto simp: bindM_def bindR_def pureReader_def intro: unchanged_trans)
        qed
      qed
    qed
  qed
qed


lemma readDirectoryM_frame:
  "validView h b \<Longrightarrow> readDirectoryM h b bt c = Some (x, h') \<Longrightarrow> unchanged h h'"
  using readDirectoryM_refines[of h b bt c] by simp

lemma readChainM_frame:
  "validView h b \<Longrightarrow> readChainM h b bt c lim = Some (x, h') \<Longrightarrow> unchanged h h'"
  using readChainM_refines[of h b bt c lim]
  by (cases x) (auto simp: unchanged_refl)

lemma list_fromM_frame:
  assumes "validView h (bufM r)" and "list_fromM r parts c h = Some (x, h')"
  shows "unchanged h h'"
  using assms
proof (induction parts arbitrary: c h)
  case Nil
  then show ?case
    using readDirectoryM_frame[of h "bufM r" "bootM r" c]
    by (auto simp: bindM_def split: option.splits sum.splits prod.splits)
next
  case (Cons part parts)
  from Cons.prems(2) obtain res h1 where
    dir: "readDirectoryM h (bufM r) (bootM r) c = Some (res, h1)"
    by (cases "readDirectoryM h (bufM r) (bootM r) c") (auto simp: bindM_def)
  from readDirectoryM_frame[OF Cons.prems(1) dir] have u: "unchanged h h1" .
  then have v1: "validView h1 (bufM r)"
    using Cons.prems(1) by (rule unchanged_view)
  show ?case
  proof (cases res)
    case (Inl e)
    with Cons.prems(2) dir u show ?thesis
      by (simp add: bindM_def)
  next
    case (Inr entries)
    show ?thesis
    proof (cases "find (\<lambda>e. isDir e \<and> name e = part) entries")
      case None
      with Cons.prems(2) dir u Inr show ?thesis
        by (simp add: bindM_def)
    next
      case (Some nxt)
      with Cons.prems(2) dir Inr have "list_fromM r parts (firstCluster nxt) h1 = Some (x, h')"
        by (simp add: bindM_def)
      from Cons.IH[OF v1 this] u show ?thesis
        by (rule unchanged_trans[rotated])
    qed
  qed
qed

lemma exists_fromM_frame:
  assumes "validView h (bufM r)" and "exists_fromM r parts c h = Some (x, h')"
  shows "unchanged h h'"
  using assms
proof (induction parts arbitrary: c h)
  case Nil
  then show ?case
    by (simp add: unchanged_refl)
next
  case (Cons part parts)
  from Cons.prems(2) obtain res h1 where
    dir: "readDirectoryM h (bufM r) (bootM r) c = Some (res, h1)"
    by (cases "readDirectoryM h (bufM r) (bootM r) c") (auto simp: bindM_def)
  from readDirectoryM_frame[OF Cons.prems(1) dir] have u: "unchanged h h1" .
  then have v1: "validView h1 (bufM r)"
    using Cons.prems(1) by (rule unchanged_view)
  show ?case
  proof (cases res)
    case (Inl e)
    with Cons.prems(2) dir u show ?thesis
      by (simp add: bindM_def)
  next
    case (Inr entries)
    show ?thesis
    proof (cases "find (\<lambda>e. name e = part \<and> (parts = [] \<or> isDir e)) entries")
      case None
      with Cons.prems(2) dir u Inr show ?thesis
        by (simp add: bindM_def)
    next
      case (Some nxt)
      with Cons.prems(2) dir Inr have "exists_fromM r parts (firstCluster nxt) h1 = Some (x, h')"
        by (simp add: bindM_def)
      from Cons.IH[OF v1 this] u show ?thesis
        by (rule unchanged_trans[rotated])
    qed
  qed
qed

lemma walk_fromM_frame:
  assumes "validView h (bufM r)" and "walk_fromM r parts c h = Some (x, h')"
  shows "unchanged h h'"
  using assms
proof (induction parts arbitrary: c h)
  case Nil
  then show ?case
    by (simp add: unchanged_refl)
next
  case (Cons part parts)
  from Cons.prems(2) obtain res h1 where
    dir: "readDirectoryM h (bufM r) (bootM r) c = Some (res, h1)"
    by (cases "readDirectoryM h (bufM r) (bootM r) c") (auto simp: bindM_def)
  from readDirectoryM_frame[OF Cons.prems(1) dir] have u: "unchanged h h1" .
  then have v1: "validView h1 (bufM r)"
    using Cons.prems(1) by (rule unchanged_view)
  show ?case
  proof (cases res)
    case (Inl e)
    with Cons.prems(2) dir u show ?thesis
      by (simp add: bindM_def)
  next
    case (Inr entries)
    show ?thesis
    proof (cases "find (\<lambda>e. isDir e \<and> name e = part) entries")
      case None
      with Cons.prems(2) dir u Inr show ?thesis
        by (simp add: bindM_def)
    next
      case (Some nxt)
      with Cons.prems(2) dir Inr have "walk_fromM r parts (firstCluster nxt) h1 = Some (x, h')"
        by (simp add: bindM_def)
      from Cons.IH[OF v1 this] u show ?thesis
        by (rule unchanged_trans[rotated])
    qed
  qed
qed

lemma visitEntriesM_frame:
  assumes "visitEntriesM r currentPath entries result h = Some y" and "validView h (bufM r)"
  shows "unchanged h (snd y)"
proof -
  have "validView h (bufM r) \<longrightarrow> unchanged h (snd y)"
  proof (rule visitEntriesM.raw_induct[where P = "\<lambda>r currentPath entries result h y.
      validView h (bufM r) \<longrightarrow> unchanged h (snd y)", OF _ assms(1)], goal_cases)
    case (1 loop r currentPath entries result h y)
    show ?case
    proof
      assume v: "validView h (bufM r)"
      show "unchanged h (snd y)"
      proof (cases entries)
        case Nil
        with 1(2) show ?thesis by (auto simp: unchanged_refl)
      next
        case (Cons e es)
        show ?thesis
        proof (cases "isDir e")
          case False
          with 1(2) Cons have "loop r currentPath es (result @ [fileItem currentPath e]) h = Some y"
            by simp
          from 1(1)[OF this] v show ?thesis by simp
        next
          case True
          with 1(2) Cons obtain res h1 where
            dir: "readDirectoryM h (bufM r) (bootM r) (firstCluster e) = Some (res, h1)"
            by (cases "readDirectoryM h (bufM r) (bootM r) (firstCluster e)") auto
          from readDirectoryM_frame[OF v dir] have u: "unchanged h h1" .
          then have v1: "validView h1 (bufM r)"
            using v by (rule unchanged_view)
          show ?thesis
          proof (cases res)
            case (Inl err)
            with 1(2) Cons True dir u show ?thesis by auto
          next
            case (Inr sub)
            with 1(2) Cons True dir obtain z where
              inner: "loop r (childPath currentPath e) sub (result @ [dirItem currentPath e]) h1
                = Some z"
              and after: "(case z of (Inl err, h'') \<Rightarrow> Some (Inl err, h'')
                 | (Inr result', h'') \<Rightarrow> loop r currentPath es result' h'') = Some y"
              by (auto simp: bind_eq_Some_conv)
            from 1(1)[OF inner] v1 have u1: "unchanged h1 (snd z)" by simp
            then have v2: "validView (snd z) (bufM r)"
              using v1 by (rule unchanged_view)
            obtain zr h2 where z: "z = (zr, h2)" by (cases z)
            show ?thesis
            proof (cases zr)
              case (Inl err)
              with after z u u1 show ?thesis
                by (auto intro: unchanged_trans)
            next
              case (Inr result')
              with after z have "loop r currentPath es result' h2 = Some y" by simp
              from 1(1)[OF this] v2 z have "unchanged h2 (snd y)" by simp
              with u u1 z show ?thesis
                by (auto intro: unchanged_trans)
            qed
          qed
        qed
      qed
    qed
  qed
  with assms(2) show ?thesis by simp
qed

lemma walkM_frame:
  assumes "validView h (bufM r)" and "walkM r p h = Some (x, h')"
  shows "unchanged h h'"
proof -
  let ?parts = "normalizePath p"
  from assms(2) obtain res h1 where
    w: "walk_fromM r ?parts (rootDirCluster (bootM r)) h = Some (res, h1)"
    by (cases "walk_fromM r ?parts (rootDirCluster (bootM r)) h")
      (auto simp: walkM_def Let_def bindM_def)
  from walk_fromM_frame[OF assms(1) w] have u: "unchanged h h1" .
  then have v1: "validView h1 (bufM r)"
    using assms(1) by (rule unchanged_view)
  show ?thesis
  proof (cases res)
    case (Inl e)
    with assms(2) w u show ?thesis
      by (simp add: walkM_def Let_def bindM_def)
  next
    case (Inr resolved)
    show ?thesis
    proof (cases resolved)
      case None
      with assms(2) w u Inr show ?thesis
        by (simp add: walkM_def Let_def bindM_def)
    next
      case (Some cluster)
      let ?base = "if ?parts \<noteq> [] then [slash] @ join ?parts else [slash]"
      from assms(2) w Inr Some have vis: "visitM r ?base cluster [] h1 = Some (x, h')"
        by (simp add: walkM_def Let_def bindM_def)
      then obtain dres h2 where
        dir: "readDirectoryM h1 (bufM r) (bootM r) cluster = Some (dres, h2)"
        by (cases "readDirectoryM h1 (bufM r) (bootM r) cluster")
          (auto simp: visitM_def bindM_def)
      from readDirectoryM_frame[OF v1 dir] have u1: "unchanged h1 h2" .
      then have v2: "validView h2 (bufM r)"
        using v1 by (rule unchanged_view)
      have "unchanged h2 h'"
      proof (cases dres)
        case (Inl e)
        with vis dir show ?thesis
          by (simp add: visitM_def bindM_def unchanged_refl)
      next
        case (Inr entries)
        with vis dir have "visitEntriesM r ?base entries [] h2 = Some (x, h')"
          by (simp add: visitM_def bindM_def)
        from visitEntriesM_frame[OF this v2] show ?thesis by simp
      qed
      with u u1 show ?thesis
        by (blast intro: unchanged_trans)
    qed
  qed
qed


lemma imageIntactI:
  assumes "validView h (bufM r)" and "\<And>x h'. m = Some (x, h') \<Longrightarrow> unchanged h h'"
  shows "imageIntact r h m"
  using assms by (auto simp: imageIntact_def unchanged_view split: option.splits)

text \<open>
  C8. On a heap where the image of the reader is in place, every public operation
  (\<^verbatim>\<open>list\<close>, \<^verbatim>\<open>exists\<close>, \<^verbatim>\<open>readFile\<close>, \<^verbatim>\<open>walk\<close> and the \<^verbatim>\<open>read\<close> closure of a walk
  item) leaves every buffer that was there as it was, the image included, however it
  ends: it only adds buffers. What \<^verbatim>\<open>readFile\<close> gives is the result of the first model
  on the bytes of the image, so a second call, on the heap the first one left, gives
  the same bytes (or the same error, or \<^verbatim>\<open>null\<close> again).
\<close>

theorem reads_leave_image_intact:
  assumes "validView h (bufM r)"
  shows "imageIntact r h (listM r p h) \<and> imageIntact r h (existsM r p h)
    \<and> imageIntact r h (readFileM r p h) \<and> imageIntact r h (walkM r p h)
    \<and> imageIntact r h (invokeReadM r captured h)
    \<and> observed (readFileM r p h) = readFile (pureReader h r) p
    \<and> (\<forall>x h'. readFileM r p h = Some (x, h') \<longrightarrow>
          observed (readFileM r p h') = observed (readFileM r p h))"
proof -
  note rf = readFile_fromM_refines[OF assms, of "normalizePath p" "rootDirCluster (bootM r)"]
  have obs: "observed (readFileM r p h) = readFile (pureReader h r) p"
    if "validView h (bufM r)" for h
    using readFile_fromM_refines[OF that, of "normalizePath p" "rootDirCluster (bootM r)"]
    by (simp add: readFileM_def readFile_def pureReader_def)
  have again: "observed (readFileM r p h') = observed (readFileM r p h)"
    if "readFileM r p h = Some (x, h')" for x h'
  proof -
    from rf that have u: "unchanged h h'"
      by (simp add: readFileM_def)
    then have "validView h' (bufM r)" "pureReader h' r = pureReader h r"
      using assms by (simp_all add: unchanged_view pureReader_unchanged)
    then show ?thesis
      using obs[of h'] obs[OF assms] by simp
  qed
  have "imageIntact r h (listM r p h)"
    using assms by (rule imageIntactI) (auto simp: listM_def intro: list_fromM_frame[OF assms])
  moreover have "imageIntact r h (existsM r p h)"
    using assms by (rule imageIntactI) (auto simp: existsM_def intro: exists_fromM_frame[OF assms])
  moreover have "unchanged h h'" if "readFileM r p h = Some (x, h')" for x h'
    using rf that by (simp add: readFileM_def)
  then have "imageIntact r h (readFileM r p h)"
    using assms by (intro imageIntactI) auto
  moreover have "imageIntact r h (walkM r p h)"
    using assms by (rule imageIntactI) (auto intro: walkM_frame[OF assms])
  moreover have "imageIntact r h (invokeReadM r captured h)"
    using assms by (rule imageIntactI)
      (auto simp: invokeReadM_def intro: readChainM_frame[OF assms])
  ultimately show ?thesis
    using obs[OF assms] again by blast
qed

lemma sample_read_a:
  "readFile sampleReader [slash, 0x61] = Some (Inr (Some (take 20 sampleData)))"
  by (simp add: readFile_def sample_fields sample_paths sample_root sample_data bindR_def)

lemma sample_heap:
  "validView [sampleImage] (bufM sampleReaderM)"
  "pureReader [sampleImage] sampleReaderM = sampleReader"
proof -
  have len: "length sampleImage = 608"
    by code_simp
  then show "validView [sampleImage] (bufM sampleReaderM)"
    by (simp add: validView_def sampleReaderM_def)
  show "pureReader [sampleImage] sampleReaderM = sampleReader"
    using len by (simp add: pureReader_def sampleReaderM_def sampleReader_def contents_def)
qed

theorem reads_leave_image_intact_witness:
  "validView [sampleImage] (bufM sampleReaderM)
   \<and> observed (readFileM sampleReaderM [slash, 0x61] [sampleImage])
       = Some (Inr (Some (take 20 sampleData)))
   \<and> (\<exists>x h'. readFileM sampleReaderM [slash, 0x61] [sampleImage] = Some (x, h')
         \<and> contents h' (bufM sampleReaderM) = sampleImage
         \<and> observed (readFileM sampleReaderM [slash, 0x61] h')
             = Some (Inr (Some (take 20 sampleData))))"
proof -
  note t = reads_leave_image_intact[OF sample_heap(1), of "[slash, 0x61]" "(0, 0)"]
  from t have obs: "observed (readFileM sampleReaderM [slash, 0x61] [sampleImage])
       = Some (Inr (Some (take 20 sampleData)))"
    by (simp add: sample_heap(2) sample_read_a)
  then obtain x h' where
    first: "readFileM sampleReaderM [slash, 0x61] [sampleImage] = Some (x, h')"
    by (cases "readFileM sampleReaderM [slash, 0x61] [sampleImage]") (auto simp: observed_def)
  from t first have "observed (readFileM sampleReaderM [slash, 0x61] h')
      = observed (readFileM sampleReaderM [slash, 0x61] [sampleImage])"
    by blast
  moreover from t first have "contents h' (bufM sampleReaderM)
      = contents [sampleImage] (bufM sampleReaderM)"
    by (simp add: imageIntact_def)
  moreover have "contents [sampleImage] (bufM sampleReaderM) = sampleImage"
    using sample_heap(2) by (simp add: pureReader_def sampleReader_def)
  ultimately show ?thesis
    using sample_heap(1) obs first by auto
qed

end
